theory Spec2Isabelle
  imports Complex_Main "HOL-Library.AList"
begin

section \<open>Python values\<close>

text \<open>
  The program is \<^verbatim>\<open>HeeJoon/src/data/mixture_ingest.py\<close>: it pages through an HTTP API,
  normalises every record to 19 fixed columns and upserts the rows in batches.

  A Python \<^verbatim>\<open>str\<close> is a sequence of Unicode code points; \<^verbatim>\<open>len\<close>, slicing,
  \<^verbatim>\<open>strip\<close> and \<^verbatim>\<open>isdigit\<close> all count code points, so a string is a list of
  code points here, and \<open>lit\<close> reads an ASCII literal of the source.
\<close>

type_synonym pystr = "nat list"

definition lit :: "string \<Rightarrow> pystr" where
  "lit s = map of_char s"

text \<open>
  A decoded JSON document (\<^verbatim>\<open>response.json()\<close>). A dict is kept as its items in
  insertion order; lookup takes the first entry of a key. JSON numbers are Python ints;
  a JSON number with a fraction or an exponent (a Python \<^verbatim>\<open>float\<close>) is outside this
  model.
\<close>

datatype json =
    JNull
  | JBool bool
  | JInt int
  | JStr pystr
  | JList "json list"
  | JDict "(pystr \<times> json) list"

text \<open>
  The exceptions. \<^verbatim>\<open>ValueError\<close> carries, in place of its message, the name of the
  setting the message is about; \<open>External\<close> is whatever a call to the outside raises (an
  HTTP status, a timeout, a body that is not JSON, a file system or store error).
\<close>

datatype py_error =
    AttributeError
  | TypeError
  | KeyError
  | ZeroDivisionError
  | OverflowError
  | RecursionError
  | ValueError pystr
  | External pystr

text \<open>
  Three things belong to the interpreter and not to this repository, and are parameters of
  the model: the Unicode digit property of the code points beyond ASCII
  (\<^verbatim>\<open>str.isdigit\<close>); the limit \<^verbatim>\<open>sys.int_max_str_digits\<close> on the decimal digits of an
  int that \<^verbatim>\<open>str\<close> converts (4300 unless it is set, 0 for no limit); and the rendering
  \<^verbatim>\<open>str(v)\<close> of a list or a dict, which raises \<^verbatim>\<open>RecursionError\<close> when the nesting
  is too deep and the error of an int it cannot convert.
\<close>

record builtins =
  digit_nonascii :: "nat \<Rightarrow> bool"
  int_max_str_digits :: nat
  str_container :: "json \<Rightarrow> py_error + pystr"

subsection \<open>Strings\<close>

text \<open>The code points \<^verbatim>\<open>str.strip()\<close> removes (\<^verbatim>\<open>str.isspace\<close>).\<close>

definition is_space_cp :: "nat \<Rightarrow> bool" where
  "is_space_cp c =
     ((9 \<le> c \<and> c \<le> 13) \<or> (28 \<le> c \<and> c \<le> 32) \<or> c = 133 \<or> c = 160 \<or> c = 5760 \<or>
      (8192 \<le> c \<and> c \<le> 8202) \<or> c = 8232 \<or> c = 8233 \<or> c = 8239 \<or> c = 8287 \<or> c = 12288)"

definition py_strip :: "pystr \<Rightarrow> pystr" where
  "py_strip s = rev (dropWhile is_space_cp (rev (dropWhile is_space_cp s)))"

definition is_digit_cp :: "builtins \<Rightarrow> nat \<Rightarrow> bool" where
  "is_digit_cp bi c = (if c < 128 then 48 \<le> c \<and> c \<le> 57 else digit_nonascii bi c)"

text \<open>\<^verbatim>\<open>s.isdigit()\<close>: every character is a digit and there is at least one.\<close>

definition py_isdigit :: "builtins \<Rightarrow> pystr \<Rightarrow> bool" where
  "py_isdigit bi s = (s \<noteq> [] \<and> list_all (is_digit_cp bi) s)"

text \<open>
  \<^verbatim>\<open>str.lower()\<close> and \<^verbatim>\<open>str.upper()\<close>. The source applies them to the column names
  only, which are ASCII; a code point beyond ASCII is left as it is here.
\<close>

definition lower_cp :: "nat \<Rightarrow> nat" where
  "lower_cp c = (if 65 \<le> c \<and> c \<le> 90 then c + 32 else c)"

definition upper_cp :: "nat \<Rightarrow> nat" where
  "upper_cp c = (if 97 \<le> c \<and> c \<le> 122 then c - 32 else c)"

definition ascii_lower :: "pystr \<Rightarrow> pystr" where
  "ascii_lower s = map lower_cp s"

definition ascii_upper :: "pystr \<Rightarrow> pystr" where
  "ascii_upper s = map upper_cp s"

fun has_prefix :: "'a list \<Rightarrow> 'a list \<Rightarrow> bool" where
  "has_prefix [] ys = True"
| "has_prefix (x # xs) [] = False"
| "has_prefix (x # xs) (y # ys) = (x = y \<and> has_prefix xs ys)"

text \<open>\<^verbatim>\<open>k in s\<close> for two strings: \<open>k\<close> occurs in \<open>s\<close> as a substring.\<close>

fun py_substr :: "'a list \<Rightarrow> 'a list \<Rightarrow> bool" where
  "py_substr k [] = (k = [])"
| "py_substr k (y # ys) = (has_prefix k (y # ys) \<or> py_substr k ys)"

text \<open>
  Slicing \<^verbatim>\<open>xs[i:j]\<close>: a negative bound counts from the end, and both bounds are
  clamped to the list.
\<close>

definition clamp_index :: "nat \<Rightarrow> int \<Rightarrow> nat" where
  "clamp_index n i = (if i < 0 then nat (max 0 (int n + i)) else min n (nat i))"

definition py_slice :: "'a list \<Rightarrow> int \<Rightarrow> int \<Rightarrow> 'a list" where
  "py_slice xs i j =
     (let a = clamp_index (length xs) i; b = clamp_index (length xs) j
      in take (b - a) (drop a xs))"

subsection \<open>\<^verbatim>\<open>str\<close>, truth value and equality\<close>

fun nat_digits :: "nat \<Rightarrow> pystr" where
  "nat_digits n = (if n < 10 then [48 + n] else nat_digits (n div 10) @ [48 + n mod 10])"

declare nat_digits.simps [simp del]

definition int_digits :: "int \<Rightarrow> pystr" where
  "int_digits i = (if i < 0 then 45 # nat_digits (nat (- i)) else nat_digits (nat i))"

text \<open>
  \<^verbatim>\<open>str(v)\<close>. It raises \<^verbatim>\<open>ValueError\<close> for an int of more decimal digits than the
  limit allows, that is for \<open>\<bar>i\<bar> \<ge> 10 ^ limit\<close>.
\<close>

definition py_str :: "builtins \<Rightarrow> json \<Rightarrow> py_error + pystr" where
  "py_str bi v =
     (case v of
        JNull \<Rightarrow> Inr (lit ''None'')
      | JBool b \<Rightarrow> Inr (if b then lit ''True'' else lit ''False'')
      | JInt i \<Rightarrow>
          (if 0 < int_max_str_digits bi \<and> 10 ^ int_max_str_digits bi \<le> \<bar>i\<bar>
           then Inl (ValueError (lit ''int_max_str_digits''))
           else Inr (int_digits i))
      | JStr s \<Rightarrow> Inr s
      | JList xs \<Rightarrow> str_container bi v
      | JDict kvs \<Rightarrow> str_container bi v)"

text \<open>The truth value \<^verbatim>\<open>not v\<close> negates.\<close>

definition py_truthy :: "json \<Rightarrow> bool" where
  "py_truthy v =
     (case v of
        JNull \<Rightarrow> False
      | JBool b \<Rightarrow> b
      | JInt i \<Rightarrow> i \<noteq> 0
      | JStr s \<Rightarrow> s \<noteq> []
      | JList xs \<Rightarrow> xs \<noteq> []
      | JDict kvs \<Rightarrow> kvs \<noteq> [])"

text \<open>A \<^verbatim>\<open>bool\<close> is an \<^verbatim>\<open>int\<close> in Python: \<^verbatim>\<open>False == 0\<close> and \<^verbatim>\<open>True == 1\<close>.\<close>

definition num_val :: "json \<Rightarrow> int option" where
  "num_val v =
     (case v of
        JBool b \<Rightarrow> Some (if b then 1 else 0)
      | JInt i \<Rightarrow> Some i
      | _ \<Rightarrow> None)"

text \<open>
  \<^verbatim>\<open>v == l\<close> for a literal \<open>l\<close> that is a string, a number, a boolean or
  \<^verbatim>\<open>None\<close>: numbers compare by value, everything else by type and content.
\<close>

definition py_eq_lit :: "json \<Rightarrow> json \<Rightarrow> bool" where
  "py_eq_lit v l =
     (case num_val v of
        Some a \<Rightarrow> (case num_val l of Some b \<Rightarrow> a = b | None \<Rightarrow> False)
      | None \<Rightarrow> (case num_val l of Some b \<Rightarrow> False | None \<Rightarrow> v = l))"

text \<open>\<^verbatim>\<open>v in (l1, l2, ...)\<close>: some element of the tuple equals \<open>v\<close>.\<close>

definition py_in_tuple :: "json \<Rightarrow> json list \<Rightarrow> bool" where
  "py_in_tuple v ls = list_ex (py_eq_lit v) ls"

subsection \<open>True division and \<^verbatim>\<open>math.ceil\<close>\<close>

text \<open>
  \<^verbatim>\<open>a / b\<close> on two ints is the double nearest to the quotient, ties going to the even
  significand; a double is kept here as the rational number it is. \<open>bits n\<close> is the bit
  length of \<open>n\<close>, from which the exponent \<open>e\<close> of the quotient (\<open>2 ^ e \<le> x < 2 ^ (e + 1)\<close>) is
  found; a double has 53 significant bits down to the exponent \<open>- 1074\<close>, so the quotient is
  rounded to a multiple of \<open>2 ^ q\<close>. A result of \<open>2 ^ 1024\<close> or more is too large for a double.
\<close>

fun bits :: "nat \<Rightarrow> nat" where
  "bits n = (if n = 0 then 0 else Suc (bits (n div 2)))"

declare bits.simps [simp del]

definition round_half_even :: "rat \<Rightarrow> int" where
  "round_half_even y =
     (let f = \<lfloor>y\<rfloor>; d = y - of_int f
      in if d < 1 / 2 then f else if 1 / 2 < d then f + 1 else if even f then f else f + 1)"

definition round_double :: "nat \<Rightarrow> nat \<Rightarrow> rat option" where
  "round_double n d =
     (if n = 0 then Some 0
      else
        let x = of_nat n / of_nat d;
            e0 = int (bits n) - int (bits d);
            e = (if 2 powi e0 \<le> x then e0 else e0 - 1);
            q = max (e - 52) (- 1074);
            m = round_half_even (x / 2 powi q);
            r = of_int m * 2 powi q
        in if 2 powi 1024 \<le> r then None else Some r)"

definition py_truediv :: "int \<Rightarrow> int \<Rightarrow> py_error + rat" where
  "py_truediv a b =
     (if b = 0 then Inl ZeroDivisionError
      else
        (case round_double (nat \<bar>a\<bar>) (nat \<bar>b\<bar>) of
           None \<Rightarrow> Inl OverflowError
         | Some r \<Rightarrow> Inr (if (a < 0) = (b < 0) then r else - r)))"

text \<open>\<^verbatim>\<open>math.ceil\<close> of a double is the least int that is not below it.\<close>

definition math_ceil :: "rat \<Rightarrow> int" where
  "math_ceil x = \<lceil>x\<rceil>"

subsection \<open>Containers\<close>

text \<open>
  \<^verbatim>\<open>k in c\<close> for a string \<open>k\<close>: a key of a dict, an element of a list, a substring
  of a string; any other \<open>c\<close> is not iterable.
\<close>

definition py_in :: "pystr \<Rightarrow> json \<Rightarrow> py_error + bool" where
  "py_in k c =
     (case c of
        JDict kvs \<Rightarrow> Inr (map_of kvs k \<noteq> None)
      | JList xs \<Rightarrow> Inr (List.member xs (JStr k))
      | JStr s \<Rightarrow> Inr (py_substr k s)
      | _ \<Rightarrow> Inl TypeError)"

text \<open>
  \<^verbatim>\<open>c[k]\<close> for a string \<open>k\<close>: the value of a dict, \<^verbatim>\<open>KeyError\<close> when the key is
  missing; a list or a string takes no string index, and nothing else is subscriptable.
\<close>

definition py_getitem :: "json \<Rightarrow> pystr \<Rightarrow> py_error + json" where
  "py_getitem c k =
     (case c of
        JDict kvs \<Rightarrow> (case map_of kvs k of Some v \<Rightarrow> Inr v | None \<Rightarrow> Inl KeyError)
      | _ \<Rightarrow> Inl TypeError)"

text \<open>\<^verbatim>\<open>c.get(k, d)\<close>: only a dict has the method.\<close>

definition py_get :: "json \<Rightarrow> pystr \<Rightarrow> json \<Rightarrow> py_error + json" where
  "py_get c k d =
     (case c of
        JDict kvs \<Rightarrow> (case map_of kvs k of Some v \<Rightarrow> Inr v | None \<Rightarrow> Inr d)
      | _ \<Rightarrow> Inl AttributeError)"

section \<open>The normaliser\<close>

definition MIXTURE_COLUMNS :: "pystr list" where
  "MIXTURE_COLUMNS = map lit
     [''TYPE_NAME'', ''MIX_TYPE'', ''INGR_CODE'', ''INGR_ENG_NAME'', ''INGR_KOR_NAME'',
      ''MIX'', ''ORI'', ''CLASS'', ''MIXTURE_MIX_TYPE'', ''MIXTURE_INGR_CODE'',
      ''MIXTURE_INGR_ENG_NAME'', ''MIXTURE_INGR_KOR_NAME'', ''MIXTURE_MIX'', ''MIXTURE_ORI'',
      ''MIXTURE_CLASS'', ''NOTIFICATION_DATE'', ''PROHBT_CONTENT'', ''REMARK'', ''DEL_YN'']"

text \<open>
  \<^verbatim>\<open>_parse_date_yyyymmdd\<close>. The \<^verbatim>\<open>try\<close> around the f-string catches nothing: slicing
  a string does not raise, and \<^verbatim>\<open>str(value)\<close> stands before the \<^verbatim>\<open>try\<close>. The
  result is a string or \<^verbatim>\<open>None\<close>.
\<close>

definition parse_date_yyyymmdd :: "builtins \<Rightarrow> json \<Rightarrow> py_error + json" where
  "parse_date_yyyymmdd bi v =
     (if \<not> py_truthy v \<or> v = JNull then Inr JNull
      else
        (case py_str bi v of
           Inl e \<Rightarrow> Inl e
         | Inr t \<Rightarrow>
             (let s = py_strip t in
              if length s = 8 \<and> py_isdigit bi s
              then Inr (JStr (py_slice s 0 4 @ lit ''-'' @ py_slice s 4 6 @ lit ''-'' @ py_slice s 6 8))
              else Inr (JStr s))))"

text \<open>The Korean word for "normal", U+C815 U+C0C1, that \<^verbatim>\<open>DEL_YN\<close> is compared with.\<close>

definition NORMAL_TOKEN :: pystr where
  "NORMAL_TOKEN = [51221, 49345]"

definition DEL_FALSY :: "json list" where
  "DEL_FALSY =
     [JBool False, JStr (lit ''f''), JStr (lit ''false''), JStr (lit ''False''),
      JStr (lit ''N''), JStr (lit ''n''), JStr (lit ''0''), JInt 0]"

text \<open>
  The lookup at the head of the loop body: the column name as it is, then in lower case,
  then in upper case; \<^verbatim>\<open>None\<close> when none is a key.
\<close>

definition resolve :: "json \<Rightarrow> pystr \<Rightarrow> py_error + json" where
  "resolve raw col =
     (case py_in col raw of
        Inl e \<Rightarrow> Inl e
      | Inr True \<Rightarrow> py_getitem raw col
      | Inr False \<Rightarrow>
          (case py_in (ascii_lower col) raw of
             Inl e \<Rightarrow> Inl e
           | Inr True \<Rightarrow> py_getitem raw (ascii_lower col)
           | Inr False \<Rightarrow>
               (case py_in (ascii_upper col) raw of
                  Inl e \<Rightarrow> Inl e
                | Inr True \<Rightarrow> py_getitem raw (ascii_upper col)
                | Inr False \<Rightarrow> Inr JNull)))"

text \<open>The rest of the loop body: the value stored under \<open>col\<close>.\<close>

definition convert :: "builtins \<Rightarrow> pystr \<Rightarrow> json \<Rightarrow> py_error + json" where
  "convert bi col val =
     (if col = lit ''NOTIFICATION_DATE'' then parse_date_yyyymmdd bi val
      else if col = lit ''DEL_YN'' then
        (if py_eq_lit val (JStr NORMAL_TOKEN) \<or> py_in_tuple val DEL_FALSY
         then Inr (JBool False) else Inr (JBool True))
      else if val \<noteq> JNull then
        (case py_str bi val of
           Inl e \<Rightarrow> Inl e
         | Inr t \<Rightarrow> Inr (JStr (py_strip t)))
      else Inr (JStr []))"

text \<open>
  \<^verbatim>\<open>clean_record\<close>: the loop over the columns, \<open>out\<close> being the dict under
  construction (\<^verbatim>\<open>out[col] = ...\<close> replaces an entry or appends one).
\<close>

fun clean_loop ::
  "builtins \<Rightarrow> json \<Rightarrow> pystr list \<Rightarrow> (pystr \<times> json) list \<Rightarrow> py_error + (pystr \<times> json) list" where
  "clean_loop bi raw [] out = Inr out"
| "clean_loop bi raw (col # cols) out =
     (case resolve raw col of
        Inl e \<Rightarrow> Inl e
      | Inr val \<Rightarrow>
          (case convert bi col val of
             Inl e \<Rightarrow> Inl e
           | Inr x \<Rightarrow> clean_loop bi raw cols (AList.update col x out)))"

text \<open>The value a column resolves to, where the lookup does not raise.\<close>

definition resolved :: "json \<Rightarrow> pystr \<Rightarrow> json" where
  "resolved raw col = (case resolve raw col of Inl e \<Rightarrow> JNull | Inr val \<Rightarrow> val)"

definition clean_record :: "builtins \<Rightarrow> json \<Rightarrow> py_error + (pystr \<times> json) list" where
  "clean_record bi raw = clean_loop bi raw MIXTURE_COLUMNS []"

section \<open>The outside world\<close>

text \<open>
  The module's settings come from \<^verbatim>\<open>src.config\<close>, which reads the environment: a
  setting that is not set is \<^verbatim>\<open>None\<close>.
\<close>

record config =
  MIXTURE_API_BASE_URL :: "pystr option"
  MIXTURE_API_SERVICE_KEY :: "pystr option"
  MIXTURE_API_NUM_OF_ROWS :: int

text \<open>
  Every effect of the program is a call to the outside: the HTTP request of
  \<^verbatim>\<open>fetch_page\<close> (URL, \<^verbatim>\<open>serviceKey\<close>, \<^verbatim>\<open>pageNo\<close>, \<^verbatim>\<open>numOfRows\<close>), the store
  client and its upsert of a batch into a table, and the two file system operations of the
  raw snapshot. The state is the list of calls made so far; the environment answers a
  call, knowing the calls before it, with a decoded document or with the exception the
  call raises. Progress lines and the pause between pages are left out.
\<close>

datatype call =
    HttpGet pystr "pystr option" int int
  | GetClient
  | Upsert pystr "(pystr \<times> json) list list"
  | MakeDirs pystr
  | WriteJson pystr "json list"

type_synonym env = "call list \<Rightarrow> call \<Rightarrow> py_error + json"

definition perform :: "env \<Rightarrow> call \<Rightarrow> call list \<Rightarrow> call list \<times> (py_error + json)" where
  "perform env c tr = (tr @ [c], env tr c)"

text \<open>\<^verbatim>\<open>a or b\<close> on optional strings: \<open>a\<close> unless it is \<^verbatim>\<open>None\<close> or empty.\<close>

definition py_or :: "pystr option \<Rightarrow> pystr option \<Rightarrow> pystr option" where
  "py_or a b = (case a of None \<Rightarrow> b | Some s \<Rightarrow> (if s = [] then b else a))"

text \<open>
  The truth value of an optional string (\<^verbatim>\<open>if not a\<close>), and the string itself once it
  is known to be one.
\<close>

definition opt_truthy :: "pystr option \<Rightarrow> bool" where
  "opt_truthy a = (case a of None \<Rightarrow> False | Some s \<Rightarrow> s \<noteq> [])"

definition opt_str :: "pystr option \<Rightarrow> pystr" where
  "opt_str a = (case a of None \<Rightarrow> [] | Some s \<Rightarrow> s)"

section \<open>The collector\<close>

definition fetch_page ::
  "env \<Rightarrow> config \<Rightarrow> pystr \<Rightarrow> int \<Rightarrow> int \<Rightarrow> pystr option \<Rightarrow> call list
     \<Rightarrow> call list \<times> (py_error + json)" where
  "fetch_page env cfg base_url page_no num_of_rows service_key tr =
     perform env
       (HttpGet base_url (py_or service_key (MIXTURE_API_SERVICE_KEY cfg)) page_no num_of_rows) tr"

text \<open>
  \<^verbatim>\<open>math.ceil(total_count / num_of_rows) if num_of_rows > 0 else 1\<close>. A boolean divides
  as the number it is; any other value that is not a number raises.
\<close>

definition total_pages_of :: "json \<Rightarrow> int \<Rightarrow> py_error + int" where
  "total_pages_of total_count num_of_rows =
     (if num_of_rows > 0 then
        (case num_val total_count of
           Some n \<Rightarrow>
             (case py_truediv n num_of_rows of
                Inl e \<Rightarrow> Inl e
              | Inr quot \<Rightarrow> Inr (math_ceil quot))
         | None \<Rightarrow> Inl TypeError)
      else Inr 1)"

text \<open>The keys of a dict, each once, in insertion order.\<close>

fun dict_keys :: "('k \<times> 'v) list \<Rightarrow> 'k list" where
  "dict_keys [] = []"
| "dict_keys ((k, v) # kvs) = k # filter (\<lambda>k'. k' \<noteq> k) (dict_keys kvs)"

text \<open>
  What \<^verbatim>\<open>for x in c\<close> runs over: the elements of a list, the keys of a dict, the
  characters of a string; nothing else is iterable.
\<close>

definition py_iter :: "json \<Rightarrow> py_error + json list" where
  "py_iter c =
     (case c of
        JList xs \<Rightarrow> Inr xs
      | JDict kvs \<Rightarrow> Inr (map JStr (dict_keys kvs))
      | JStr s \<Rightarrow> Inr (map (\<lambda>ch. JStr [ch]) s)
      | _ \<Rightarrow> Inl TypeError)"

text \<open>The body of the inner loop: a dict with the key \<^verbatim>\<open>item\<close> gives its value.\<close>

definition unwrap_item :: "json \<Rightarrow> json" where
  "unwrap_item item_wrapper =
     (case item_wrapper of
        JDict kvs \<Rightarrow> (case map_of kvs (lit ''item'') of Some x \<Rightarrow> x | None \<Rightarrow> item_wrapper)
      | _ \<Rightarrow> item_wrapper)"

fun unwrap_loop :: "json list \<Rightarrow> json list \<Rightarrow> json list" where
  "unwrap_loop [] all_items = all_items"
| "unwrap_loop (item_wrapper # items) all_items =
     unwrap_loop items (all_items @ [unwrap_item item_wrapper])"

text \<open>\<^verbatim>\<open>data.get("body", {}).get("items", [])\<close>, as the list the inner loop runs over.\<close>

definition page_items :: "json \<Rightarrow> py_error + json list" where
  "page_items data =
     (case py_get data (lit ''body'') (JDict []) of
        Inl e \<Rightarrow> Inl e
      | Inr body \<Rightarrow>
          (case py_get body (lit ''items'') (JList []) of
             Inl e \<Rightarrow> Inl e
           | Inr items \<Rightarrow> py_iter items))"

text \<open>The loop over the pages of \<^verbatim>\<open>range(1, total_pages + 1)\<close>.\<close>

fun fetch_loop ::
  "env \<Rightarrow> config \<Rightarrow> pystr \<Rightarrow> int \<Rightarrow> pystr option \<Rightarrow> int list \<Rightarrow> json list \<Rightarrow> call list
     \<Rightarrow> call list \<times> (py_error + json list)" where
  "fetch_loop env cfg base_url num_of_rows service_key [] all_items tr = (tr, Inr all_items)"
| "fetch_loop env cfg base_url num_of_rows service_key (page # pages) all_items tr =
     (case fetch_page env cfg base_url page num_of_rows service_key tr of
        (tr1, Inl e) \<Rightarrow> (tr1, Inl e)
      | (tr1, Inr data) \<Rightarrow>
          (case page_items data of
             Inl e \<Rightarrow> (tr1, Inl e)
           | Inr items \<Rightarrow>
               fetch_loop env cfg base_url num_of_rows service_key pages
                 (unwrap_loop items all_items) tr1))"

definition fetch_all_from_api ::
  "env \<Rightarrow> config \<Rightarrow> pystr \<Rightarrow> int \<Rightarrow> pystr option \<Rightarrow> call list
     \<Rightarrow> call list \<times> (py_error + json list)" where
  "fetch_all_from_api env cfg base_url num_of_rows service_key tr =
     (let service_key = py_or service_key (MIXTURE_API_SERVICE_KEY cfg) in
      case fetch_page env cfg base_url 1 1 service_key tr of
        (tr1, Inl e) \<Rightarrow> (tr1, Inl e)
      | (tr1, Inr first_page) \<Rightarrow>
          (case py_get first_page (lit ''body'') (JDict []) of
             Inl e \<Rightarrow> (tr1, Inl e)
           | Inr body \<Rightarrow>
               (case py_get body (lit ''totalCount'') (JInt 0) of
                  Inl e \<Rightarrow> (tr1, Inl e)
                | Inr total_count \<Rightarrow>
                    (case total_pages_of total_count num_of_rows of
                       Inl e \<Rightarrow> (tr1, Inl e)
                     | Inr total_pages \<Rightarrow>
                         fetch_loop env cfg base_url num_of_rows service_key
                           [1..total_pages] [] tr1))))"

section \<open>The batched upsert\<close>

text \<open>The loop over \<^verbatim>\<open>range(batches)\<close>: one upsert call for each slice.\<close>

fun upsert_loop ::
  "env \<Rightarrow> pystr \<Rightarrow> (pystr \<times> json) list list \<Rightarrow> int \<Rightarrow> int list \<Rightarrow> call list
     \<Rightarrow> call list \<times> (py_error + unit)" where
  "upsert_loop env table_name rows batch_size [] tr = (tr, Inr ())"
| "upsert_loop env table_name rows batch_size (i # is) tr =
     (let start = i * batch_size;
          stop = start + batch_size;
          batch = py_slice rows start stop
      in case perform env (Upsert table_name batch) tr of
           (tr1, Inl e) \<Rightarrow> (tr1, Inl e)
         | (tr1, Inr r) \<Rightarrow> upsert_loop env table_name rows batch_size is tr1)"

text \<open>
  \<^verbatim>\<open>upsert_to_supabase\<close>. The client is made first, also for no rows; the division
  raises for a batch size of zero.
\<close>

definition upsert_to_supabase ::
  "env \<Rightarrow> (pystr \<times> json) list list \<Rightarrow> pystr \<Rightarrow> int \<Rightarrow> call list
     \<Rightarrow> call list \<times> (py_error + unit)" where
  "upsert_to_supabase env rows table_name batch_size tr =
     (case perform env GetClient tr of
        (tr1, Inl e) \<Rightarrow> (tr1, Inl e)
      | (tr1, Inr client) \<Rightarrow>
          (let total = int (length rows) in
           if total = 0 then (tr1, Inr ())
           else
             (case py_truediv total batch_size of
                Inl e \<Rightarrow> (tr1, Inl e)
              | Inr quot \<Rightarrow>
                  (let batches = math_ceil quot
                   in upsert_loop env table_name rows batch_size [0..batches - 1] tr1))))"

section \<open>Collecting with the module's settings\<close>

text \<open>\<^verbatim>\<open>os.path.dirname\<close> of a POSIX path.\<close>

definition dirname :: "pystr \<Rightarrow> pystr" where
  "dirname p =
     (let head = rev (dropWhile (\<lambda>c. c \<noteq> 47) (rev p)) in
      if head \<noteq> [] \<and> \<not> list_all (\<lambda>c. c = 47) head
      then rev (dropWhile (\<lambda>c. c = 47) (rev head))
      else head)"

text \<open>
  \<^verbatim>\<open>fetch_mixture_data\<close>: the two settings are checked first; the snapshot is written
  when a path is given.
\<close>

definition save_snapshot ::
  "env \<Rightarrow> pystr \<Rightarrow> json list \<Rightarrow> call list \<Rightarrow> call list \<times> (py_error + json list)" where
  "save_snapshot env save_path items tr =
     (let save_dir = dirname save_path in
      case (if save_dir \<noteq> [] then perform env (MakeDirs save_dir) tr else (tr, Inr JNull)) of
        (tr1, Inl e) \<Rightarrow> (tr1, Inl e)
      | (tr1, Inr r) \<Rightarrow>
          (case perform env (WriteJson save_path items) tr1 of
             (tr2, Inl e) \<Rightarrow> (tr2, Inl e)
           | (tr2, Inr r2) \<Rightarrow> (tr2, Inr items)))"

definition fetch_mixture_data ::
  "env \<Rightarrow> config \<Rightarrow> pystr option \<Rightarrow> call list \<Rightarrow> call list \<times> (py_error + json list)" where
  "fetch_mixture_data env cfg save_path tr =
     (if \<not> opt_truthy (MIXTURE_API_BASE_URL cfg)
      then (tr, Inl (ValueError (lit ''MIXTURE_API_BASE_URL'')))
      else if \<not> opt_truthy (MIXTURE_API_SERVICE_KEY cfg)
      then (tr, Inl (ValueError (lit ''MIXTURE_API_SERVICE_KEY'')))
      else
        (case fetch_all_from_api env cfg (opt_str (MIXTURE_API_BASE_URL cfg))
                (MIXTURE_API_NUM_OF_ROWS cfg) None tr of
           (tr1, Inl e) \<Rightarrow> (tr1, Inl e)
         | (tr1, Inr items) \<Rightarrow>
             (if opt_truthy save_path then save_snapshot env (opt_str save_path) items tr1
              else (tr1, Inr items))))"

text \<open>
  The parameters used where a property is evaluated on a concrete input: no digit beyond
  ASCII, the limit of 4300 digits, and an empty rendering of containers.
\<close>

abbreviation ascii_builtins :: builtins where
  "ascii_builtins \<equiv>
     \<lparr>digit_nonascii = (\<lambda>c. False), int_max_str_digits = 4300, str_container = (\<lambda>v. Inr [])\<rparr>"






text \<open>A store that accepts every call, and rows to upsert into it.\<close>

abbreviation row_of :: "int \<Rightarrow> (pystr \<times> json) list" where
  "row_of i \<equiv> [(lit ''INGR_CODE'', JInt i)]"

abbreviation accepting :: env where
  "accepting \<equiv> (\<lambda>h c. Inr JNull)"

section \<open>Properties of the normaliser\<close>

lemma distinct_columns: "distinct MIXTURE_COLUMNS"
  by (simp add: MIXTURE_COLUMNS_def lit_def)

lemma length_columns: "length MIXTURE_COLUMNS = 19"
  by (simp add: MIXTURE_COLUMNS_def)

lemma resolve_dict:
  "resolve (JDict kvs) col = Inr
     (case map_of kvs col of Some v \<Rightarrow> v | None \<Rightarrow>
        (case map_of kvs (ascii_lower col) of Some v \<Rightarrow> v | None \<Rightarrow>
           (case map_of kvs (ascii_upper col) of Some v \<Rightarrow> v | None \<Rightarrow> JNull)))"
  by (simp add: resolve_def py_in_def py_getitem_def split: option.splits)

lemma resolve_dict_resolved: "resolve (JDict kvs) col = Inr (resolved (JDict kvs) col)"
  by (simp add: resolved_def resolve_dict)

lemma resolved_value: "resolved (JDict kvs) col = JNull \<or> resolved (JDict kvs) col \<in> snd ` set kvs"
proof -
  have "map_of kvs k = Some v \<Longrightarrow> v \<in> snd ` set kvs" for k v
    by (metis map_of_SomeD snd_conv image_eqI)
  then show ?thesis
    by (auto simp: resolved_def resolve_dict split: option.splits)
qed

lemma update_fresh: "k \<notin> fst ` set al \<Longrightarrow> AList.update k v al = al @ [(k, v)]"
  by (induction al) auto

text \<open>
  The result of the loop on a dict: a record is returned exactly when every conversion
  returns, and its entries are then the conversions of the resolved values, column by
  column.
\<close>

lemma tagged_inj: "map (\<lambda>(k, x). (k, Inr x :: py_error + json)) xs = map (\<lambda>(k, x). (k, Inr x)) ys \<longleftrightarrow> xs = ys"
proof -
  have "inj (\<lambda>(k, x). (k, Inr x :: py_error + json))"
    by (auto simp: inj_on_def)
  then show ?thesis by (rule inj_map_eq_map)
qed

lemma clean_loop_dict:
  "distinct cols \<Longrightarrow> set cols \<inter> fst ` set out = {} \<Longrightarrow>
   clean_loop bi (JDict kvs) cols out = Inr res \<longleftrightarrow>
     map (\<lambda>(k, x). (k, Inr x)) res =
       map (\<lambda>(k, x). (k, Inr x)) out @ map (\<lambda>c. (c, convert bi c (resolved (JDict kvs) c))) cols"
proof (induction cols arbitrary: out)
  case Nil
  show ?case using tagged_inj [of res out] by auto
next
  case (Cons col cols)
  have fresh: "col \<notin> fst ` set out" using Cons.prems(2) by auto
  show ?case
  proof (cases "convert bi col (resolved (JDict kvs) col)")
    case (Inl e)
    have "map (\<lambda>(k, x). (k, Inr x)) res \<noteq>
       map (\<lambda>(k, x). (k, Inr x)) out @ (col, Inl e) # map (\<lambda>c. (c, convert bi c (resolved (JDict kvs) c))) cols"
    proof
      assume eq: "map (\<lambda>(k, x). (k, Inr x)) res =
       map (\<lambda>(k, x). (k, Inr x)) out @ (col, Inl e) # map (\<lambda>c. (c, convert bi c (resolved (JDict kvs) c))) cols"
      then have "(col, Inl e) \<in> set (map (\<lambda>(k, x). (k, Inr x :: py_error + json)) res)"
        by simp
      then show False by auto
    qed
    then show ?thesis using Inl by (simp add: resolve_dict_resolved)
  next
    case (Inr x)
    let ?out = "out @ [(col, x)]"
    have "distinct cols" using Cons.prems(1) by simp
    moreover have "set cols \<inter> fst ` set ?out = {}" using Cons.prems by auto
    ultimately have "clean_loop bi (JDict kvs) cols ?out = Inr res \<longleftrightarrow>
       map (\<lambda>(k, x). (k, Inr x)) res =
         map (\<lambda>(k, x). (k, Inr x)) ?out @ map (\<lambda>c. (c, convert bi c (resolved (JDict kvs) c))) cols"
      by (rule Cons.IH)
    then show ?thesis
      using Inr by (simp add: resolve_dict_resolved update_fresh [OF fresh])
  qed
qed

lemma clean_record_dict:
  "clean_record bi (JDict kvs) = Inr out \<longleftrightarrow>
     map (\<lambda>(k, x). (k, Inr x)) out =
       map (\<lambda>c. (c, convert bi c (resolved (JDict kvs) c))) MIXTURE_COLUMNS"
  unfolding clean_record_def
  using clean_loop_dict [OF distinct_columns, of "[]" bi kvs out] by simp

lemma tagged_keys:
  "map (\<lambda>(k, x). (k, Inr x :: py_error + json)) out = map (\<lambda>c. (c, F c)) cs \<Longrightarrow> map fst out = cs"
proof -
  assume "map (\<lambda>(k, x). (k, Inr x :: py_error + json)) out = map (\<lambda>c. (c, F c)) cs"
  then have "map fst (map (\<lambda>(k, x). (k, Inr x :: py_error + json)) out) = map fst (map (\<lambda>c. (c, F c)) cs)"
    by simp
  then show ?thesis by (simp add: comp_def case_prod_unfold)
qed

lemma tagged_entry:
  "map (\<lambda>(k, x). (k, Inr x :: py_error + json)) out = map (\<lambda>c. (c, F c)) cs \<Longrightarrow>
   (k, v) \<in> set out \<Longrightarrow> F k = Inr v"
proof -
  assume eq: "map (\<lambda>(k, x). (k, Inr x :: py_error + json)) out = map (\<lambda>c. (c, F c)) cs"
    and "(k, v) \<in> set out"
  then have "(\<lambda>(k, x). (k, Inr x :: py_error + json)) (k, v) \<in> (\<lambda>(k, x). (k, Inr x)) ` set out"
    by (intro imageI)
  then have "(k, Inr v) \<in> set (map (\<lambda>(k, x). (k, Inr x :: py_error + json)) out)"
    by simp
  then have "(k, Inr v) \<in> set (map (\<lambda>c. (c, F c)) cs)" using eq by simp
  then show ?thesis by auto
qed

lemma tagged_lookup:
  "map (\<lambda>(k, x). (k, Inr x :: py_error + json)) out = map (\<lambda>c. (c, F c)) cs \<Longrightarrow>
   c \<in> set cs \<Longrightarrow> \<exists>x. F c = Inr x \<and> map_of out c = Some x"
proof (induction cs arbitrary: out)
  case Nil
  then show ?case by simp
next
  case (Cons a cs)
  then obtain k x rest where out: "out = (k, x) # rest" by (cases out) auto
  have head: "k = a" "F a = Inr x"
    and tail: "map (\<lambda>(k, x). (k, Inr x :: py_error + json)) rest = map (\<lambda>c. (c, F c)) cs"
    using Cons.prems(1) out by simp_all
  show ?case
  proof (cases "c = a")
    case True
    then show ?thesis using head out by simp
  next
    case False
    then have "c \<in> set cs" using Cons.prems(2) by simp
    from Cons.IH [OF tail this] show ?thesis using False head out by simp
  qed
qed

lemma clean_record_returns:
  assumes "\<forall>c \<in> set MIXTURE_COLUMNS. \<exists>x. convert bi c (resolved (JDict kvs) c) = Inr x"
  shows "\<exists>out. clean_record bi (JDict kvs) = Inr out"
proof -
  let ?F = "\<lambda>c. convert bi c (resolved (JDict kvs) c)"
  let ?out = "map (\<lambda>c. (c, projr (?F c))) MIXTURE_COLUMNS"
  have "map (\<lambda>(k, x). (k, Inr x)) ?out = map (\<lambda>c. (c, ?F c)) MIXTURE_COLUMNS"
    using assms by (auto simp: comp_def)
  then show ?thesis using clean_record_dict [of bi kvs ?out] by blast
qed

lemma convert_returns:
  "\<exists>s. py_str bi val = Inr s \<Longrightarrow> \<exists>x. convert bi col val = Inr x"
  by (auto simp: convert_def parse_date_yyyymmdd_def Let_def)

lemma clean_record_renders:
  assumes "\<forall>v \<in> snd ` set kvs. \<exists>s. py_str bi v = Inr s"
  shows "\<exists>out. clean_record bi (JDict kvs) = Inr out"
proof (rule clean_record_returns, rule ballI)
  fix c
  have "\<exists>s. py_str bi JNull = Inr s" by (simp add: py_str_def)
  then have "\<exists>s. py_str bi (resolved (JDict kvs) c) = Inr s"
    using resolved_value [of kvs c] assms by metis
  then show "\<exists>x. convert bi c (resolved (JDict kvs) c) = Inr x"
    by (rule convert_returns)
qed

lemma py_str_scalar:
  "py_str bi JNull = Inr (lit ''None'')"
  "py_str bi (JBool b) = Inr (if b then lit ''True'' else lit ''False'')"
  "py_str bi (JStr s) = Inr s"
  by (simp_all add: py_str_def)

lemma py_str_int:
  "int_max_str_digits bi = 0 \<or> \<bar>i\<bar> < 10 ^ int_max_str_digits bi \<Longrightarrow>
   py_str bi (JInt i) = Inr (int_digits i)"
  by (auto simp: py_str_def)

lemma py_str_int_raises:
  "0 < int_max_str_digits bi \<Longrightarrow> 10 ^ int_max_str_digits bi \<le> \<bar>i\<bar> \<Longrightarrow>
   py_str bi (JInt i) = Inl (ValueError (lit ''int_max_str_digits''))"
  by (simp add: py_str_def)

lemma py_str_small: "\<bar>i\<bar> < 10 \<Longrightarrow> py_str bi (JInt i) = Inr (int_digits i)"
proof (cases "int_max_str_digits bi")
  case 0
  then show ?thesis by (simp add: py_str_int)
next
  case (Suc n)
  assume small: "\<bar>i\<bar> < 10"
  have "(1 :: int) \<le> 10 ^ n" by simp
  then have "\<bar>i\<bar> < 10 * 10 ^ n" using small by linarith
  then have "\<bar>i\<bar> < 10 ^ int_max_str_digits bi" using Suc by simp
  then show ?thesis by (simp add: py_str_int)
qed

lemma parse_date_cases:
  "parse_date_yyyymmdd bi v = Inr x \<Longrightarrow> x = JNull \<or> (\<exists>s. x = JStr s)"
  by (auto simp: parse_date_yyyymmdd_def Let_def split: if_splits sum.splits)

lemma convert_typed:
  "convert bi col val = Inr x \<Longrightarrow>
   (if col = lit ''NOTIFICATION_DATE'' then x = JNull \<or> (\<exists>s. x = JStr s)
    else if col = lit ''DEL_YN'' then (\<exists>b. x = JBool b)
    else (\<exists>s. x = JStr s))"
  using parse_date_cases [of bi val x]
  by (auto simp: convert_def split: if_splits sum.splits)

text \<open>
  Claim C2. For every dict, the record that \<open>clean_record\<close> returns has as its keys exactly
  the 19 canonical columns, in the order of \<open>MIXTURE_COLUMNS\<close>, whatever keys the input has.
  The value of \<^verbatim>\<open>NOTIFICATION_DATE\<close> is a string or \<^verbatim>\<open>None\<close>, the value of
  \<^verbatim>\<open>DEL_YN\<close> is a boolean, and every other value is a string. A record is returned
  whenever \<^verbatim>\<open>str\<close> can render the values of the dict.
\<close>

theorem clean_record_columns:
  "(clean_record bi (JDict kvs) = Inr out \<longrightarrow>
      map fst out = MIXTURE_COLUMNS \<and> fst ` set out = set MIXTURE_COLUMNS \<and> length out = 19 \<and>
      distinct (map fst out) \<and>
      (\<forall>k v. (k, v) \<in> set out \<longrightarrow>
         (if k = lit ''NOTIFICATION_DATE'' then v = JNull \<or> (\<exists>s. v = JStr s)
          else if k = lit ''DEL_YN'' then (\<exists>b. v = JBool b)
          else (\<exists>s. v = JStr s)))) \<and>
   ((\<forall>v \<in> snd ` set kvs. \<exists>s. py_str bi v = Inr s) \<longrightarrow>
      (\<exists>res. clean_record bi (JDict kvs) = Inr res))"
proof (intro conjI impI)
  assume ret: "clean_record bi (JDict kvs) = Inr out"
  then have eq: "map (\<lambda>(k, x). (k, Inr x)) out =
       map (\<lambda>c. (c, convert bi c (resolved (JDict kvs) c))) MIXTURE_COLUMNS"
    by (simp add: clean_record_dict)
  show keys: "map fst out = MIXTURE_COLUMNS"
    using eq by (rule tagged_keys)
  show "fst ` set out = set MIXTURE_COLUMNS"
    using keys by (metis set_map)
  show "length out = 19"
    using keys length_columns by (metis length_map)
  show "distinct (map fst out)"
    using keys distinct_columns by simp
  show "\<forall>k v. (k, v) \<in> set out \<longrightarrow>
         (if k = lit ''NOTIFICATION_DATE'' then v = JNull \<or> (\<exists>s. v = JStr s)
          else if k = lit ''DEL_YN'' then (\<exists>b. v = JBool b)
          else (\<exists>s. v = JStr s))"
  proof (intro allI impI)
    fix k v
    assume "(k, v) \<in> set out"
    then have "convert bi k (resolved (JDict kvs) k) = Inr v"
      using eq by (rule tagged_entry [rotated])
    then show "if k = lit ''NOTIFICATION_DATE'' then v = JNull \<or> (\<exists>s. v = JStr s)
         else if k = lit ''DEL_YN'' then (\<exists>b. v = JBool b)
         else (\<exists>s. v = JStr s)"
      by (rule convert_typed)
  qed
next
  assume "\<forall>v \<in> snd ` set kvs. \<exists>s. py_str bi v = Inr s"
  then show "\<exists>res. clean_record bi (JDict kvs) = Inr res"
    by (rule clean_record_renders)
qed

theorem clean_record_columns_witness:
  "\<exists>out. clean_record ascii_builtins
       (JDict [(lit ''type_name'', JStr (lit '' a '')), (lit ''Extra'', JInt 7)]) = Inr out \<and>
     map fst out = MIXTURE_COLUMNS \<and> length out = 19"
proof -
  have h: "\<forall>v \<in> snd ` set [(lit ''type_name'', JStr (lit '' a '')), (lit ''Extra'', JInt 7)].
      \<exists>s. py_str ascii_builtins v = Inr s"
    by (simp add: py_str_scalar py_str_small)
  note inst = clean_record_columns
      [where bi = ascii_builtins
         and kvs = "[(lit ''type_name'', JStr (lit '' a '')), (lit ''Extra'', JInt 7)]"]
  from inst [where out = "[]"] h obtain out where out: "clean_record ascii_builtins
       (JDict [(lit ''type_name'', JStr (lit '' a '')), (lit ''Extra'', JInt 7)]) = Inr out"
    by blast
  from inst [where out = out] out have "map fst out = MIXTURE_COLUMNS" "length out = 19"
    by blast+
  with out show ?thesis by blast
qed

lemma col_del_yn: "lit ''DEL_YN'' \<in> set MIXTURE_COLUMNS"
  by (simp add: MIXTURE_COLUMNS_def)

lemma col_del_yn_neq: "lit ''DEL_YN'' \<noteq> lit ''NOTIFICATION_DATE''"
  by (simp add: lit_def)

lemma convert_del_yn:
  "convert bi (lit ''DEL_YN'') val =
     Inr (JBool (val \<notin> {JStr NORMAL_TOKEN, JBool False, JStr (lit ''f''), JStr (lit ''false''),
                  JStr (lit ''False''), JStr (lit ''N''), JStr (lit ''n''), JStr (lit ''0''), JInt 0}))"
  by (cases val)
     (auto simp: convert_def col_del_yn_neq py_eq_lit_def py_in_tuple_def DEL_FALSY_def num_val_def)

lemma clean_record_lookup:
  "clean_record bi (JDict kvs) = Inr out \<Longrightarrow> c \<in> set MIXTURE_COLUMNS \<Longrightarrow>
   \<exists>x. convert bi c (resolved (JDict kvs) c) = Inr x \<and> map_of out c = Some x"
proof -
  assume ret: "clean_record bi (JDict kvs) = Inr out" and c: "c \<in> set MIXTURE_COLUMNS"
  from ret have eq: "map (\<lambda>(k, x). (k, Inr x)) out =
       map (\<lambda>c. (c, convert bi c (resolved (JDict kvs) c))) MIXTURE_COLUMNS"
    by (simp add: clean_record_dict)
  show ?thesis using eq c by (rule tagged_lookup)
qed

text \<open>
  Claim C3. The conversion of \<^verbatim>\<open>DEL_YN\<close> never raises: its result is \<^verbatim>\<open>False\<close>
  exactly when the resolved value is the Korean token or one of \<^verbatim>\<open>False\<close>, \<^verbatim>\<open>"f"\<close>,
  \<^verbatim>\<open>"false"\<close>, \<^verbatim>\<open>"False"\<close>, \<^verbatim>\<open>"N"\<close>, \<^verbatim>\<open>"n"\<close>, \<^verbatim>\<open>"0"\<close>, \<^verbatim>\<open>0\<close>, and
  \<^verbatim>\<open>True\<close> for every other value, \<^verbatim>\<open>None\<close> (also of a missing key) among them. This is
  the \<^verbatim>\<open>DEL_YN\<close> of every record that \<open>clean_record\<close> returns for a dict, and a record is
  returned whenever \<^verbatim>\<open>str\<close> can render the values of the dict.
\<close>

theorem del_yn_coercion:
  "convert bi (lit ''DEL_YN'') val =
     Inr (JBool (val \<notin> {JStr NORMAL_TOKEN, JBool False, JStr (lit ''f''), JStr (lit ''false''),
                  JStr (lit ''False''), JStr (lit ''N''), JStr (lit ''n''), JStr (lit ''0''), JInt 0})) \<and>
   (clean_record bi (JDict kvs) = Inr out \<longrightarrow>
      map_of out (lit ''DEL_YN'') =
        Some (JBool (resolved (JDict kvs) (lit ''DEL_YN'') \<notin>
          {JStr NORMAL_TOKEN, JBool False, JStr (lit ''f''), JStr (lit ''false''),
           JStr (lit ''False''), JStr (lit ''N''), JStr (lit ''n''), JStr (lit ''0''), JInt 0}))) \<and>
   ((\<forall>v \<in> snd ` set kvs. \<exists>s. py_str bi v = Inr s) \<longrightarrow>
      (\<exists>res. clean_record bi (JDict kvs) = Inr res \<and>
         map_of res (lit ''DEL_YN'') =
           Some (JBool (resolved (JDict kvs) (lit ''DEL_YN'') \<notin>
             {JStr NORMAL_TOKEN, JBool False, JStr (lit ''f''), JStr (lit ''false''),
              JStr (lit ''False''), JStr (lit ''N''), JStr (lit ''n''), JStr (lit ''0''), JInt 0}))))"
proof -
  have entry: "map_of res (lit ''DEL_YN'') =
        Some (JBool (resolved (JDict kvs) (lit ''DEL_YN'') \<notin>
          {JStr NORMAL_TOKEN, JBool False, JStr (lit ''f''), JStr (lit ''false''),
           JStr (lit ''False''), JStr (lit ''N''), JStr (lit ''n''), JStr (lit ''0''), JInt 0}))"
    if "clean_record bi (JDict kvs) = Inr res" for res
    using clean_record_lookup [OF that col_del_yn]
    by (simp only: convert_del_yn) auto
  show ?thesis
    using entry clean_record_renders [of kvs bi] by (simp only: convert_del_yn) blast
qed

theorem del_yn_coercion_witness:
  "(\<exists>out. clean_record ascii_builtins (JDict [(lit ''del_yn'', JStr NORMAL_TOKEN)]) = Inr out \<and>
     map_of out (lit ''DEL_YN'') = Some (JBool False)) \<and>
   (\<exists>out. clean_record ascii_builtins (JDict [(lit ''DEL_YN'', JStr (lit ''Y''))]) = Inr out \<and>
     map_of out (lit ''DEL_YN'') = Some (JBool True)) \<and>
   (\<exists>out. clean_record ascii_builtins (JDict []) = Inr out \<and>
     map_of out (lit ''DEL_YN'') = Some (JBool True))"
proof -
  have r: "\<forall>v \<in> snd ` set [(lit ''del_yn'', JStr NORMAL_TOKEN)]. \<exists>s. py_str ascii_builtins v = Inr s"
    "\<forall>v \<in> snd ` set [(lit ''DEL_YN'', JStr (lit ''Y''))]. \<exists>s. py_str ascii_builtins v = Inr s"
    "\<forall>v \<in> snd ` set ([] :: (pystr \<times> json) list). \<exists>s. py_str ascii_builtins v = Inr s"
    by (simp_all add: py_str_def)
  have v: "resolved (JDict [(lit ''del_yn'', JStr NORMAL_TOKEN)]) (lit ''DEL_YN'') = JStr NORMAL_TOKEN"
    "resolved (JDict [(lit ''DEL_YN'', JStr (lit ''Y''))]) (lit ''DEL_YN'') = JStr (lit ''Y'')"
    "resolved (JDict []) (lit ''DEL_YN'') = JNull"
    by (simp_all add: resolved_def resolve_dict lit_def ascii_lower_def lower_cp_def)
  have n: "JStr (lit ''Y'') \<notin> {JStr NORMAL_TOKEN, JBool False, JStr (lit ''f''), JStr (lit ''false''),
           JStr (lit ''False''), JStr (lit ''N''), JStr (lit ''n''), JStr (lit ''0''), JInt 0}"
    by (simp add: lit_def NORMAL_TOKEN_def)
  show ?thesis
    using del_yn_coercion [of ascii_builtins JNull "[(lit ''del_yn'', JStr NORMAL_TOKEN)]" "[]"]
      del_yn_coercion [of ascii_builtins JNull "[(lit ''DEL_YN'', JStr (lit ''Y''))]" "[]"]
      del_yn_coercion [of ascii_builtins JNull "[]" "[]"] r n
    unfolding v by auto
qed

lemma convert_null:
  "convert bi col JNull =
     Inr (if col = lit ''NOTIFICATION_DATE'' then JNull
          else if col = lit ''DEL_YN'' then JBool True else JStr [])"
  by (simp add: convert_def parse_date_yyyymmdd_def py_truthy_def py_eq_lit_def py_in_tuple_def
      DEL_FALSY_def num_val_def)

lemma convert_raises: "convert bi col val = Inl e \<Longrightarrow> py_str bi val = Inl e"
  by (auto simp: convert_def parse_date_yyyymmdd_def Let_def split: if_splits sum.splits)

lemma clean_loop_raises:
  "clean_loop bi (JDict kvs) cols out = Inl e \<Longrightarrow>
   \<exists>c \<in> set cols. convert bi c (resolved (JDict kvs) c) = Inl e"
proof (induction cols arbitrary: out)
  case Nil
  then show ?case by simp
next
  case (Cons col cols)
  show ?case
  proof (cases "convert bi col (resolved (JDict kvs) col)")
    case (Inl e')
    then have "e' = e" using Cons.prems by (simp add: resolve_dict_resolved)
    then show ?thesis using Inl by simp
  next
    case (Inr x)
    then have "clean_loop bi (JDict kvs) cols (AList.update col x out) = Inl e"
      using Cons.prems by (simp add: resolve_dict_resolved)
    then have "\<exists>c \<in> set cols. convert bi c (resolved (JDict kvs) c) = Inl e"
      by (rule Cons.IH)
    then show ?thesis by auto
  qed
qed

lemma clean_record_raises:
  assumes "clean_record bi (JDict kvs) = Inl e"
  shows "\<exists>v \<in> snd ` set kvs. py_str bi v = Inl e"
proof -
  obtain c where "convert bi c (resolved (JDict kvs) c) = Inl e"
    using assms clean_loop_raises unfolding clean_record_def by blast
  then have r: "py_str bi (resolved (JDict kvs) c) = Inl e"
    by (rule convert_raises)
  then have "resolved (JDict kvs) c \<noteq> JNull"
    by (auto simp: py_str_scalar)
  then have "resolved (JDict kvs) c \<in> snd ` set kvs"
    using resolved_value [of kvs c] by simp
  then show ?thesis using r by blast
qed

lemma clean_record_default:
  assumes ret: "clean_record bi (JDict kvs) = Inr out"
    and col: "col \<in> set MIXTURE_COLUMNS"
    and miss: "map_of kvs col = None \<and> map_of kvs (ascii_lower col) = None \<and>
           map_of kvs (ascii_upper col) = None \<or> resolve (JDict kvs) col = Inr JNull"
  shows "map_of out col =
          Some (if col = lit ''NOTIFICATION_DATE'' then JNull
                else if col = lit ''DEL_YN'' then JBool True else JStr [])"
proof -
  have "resolve (JDict kvs) col = Inr JNull"
    using miss by (auto simp: resolve_dict)
  then have "resolved (JDict kvs) col = JNull"
    by (simp add: resolved_def)
  then show ?thesis
    using clean_record_lookup [OF ret col] by (simp add: convert_null)
qed

lemma scalar_renders:
  assumes "v = JNull \<or> (\<exists>b. v = JBool b) \<or> (\<exists>s. v = JStr s) \<or>
           (\<exists>i. v = JInt i \<and> (int_max_str_digits bi = 0 \<or> \<bar>i\<bar> < 10 ^ int_max_str_digits bi))"
  shows "\<exists>s. py_str bi v = Inr s"
  using assms py_str_int [of bi] by (auto simp: py_str_scalar)

lemma clean_record_digits:
  assumes "int_max_str_digits bi = n" and "0 < n"
  shows "clean_record bi (JDict [(lit ''MIX'', JInt (10 ^ n))]) =
           Inl (ValueError (lit ''int_max_str_digits''))"
proof -
  have "py_str bi (JInt (10 ^ n)) = Inl (ValueError (lit ''int_max_str_digits''))"
    using assms by (intro py_str_int_raises) simp_all
  then show ?thesis
    by (simp add: clean_record_def MIXTURE_COLUMNS_def resolve_dict convert_def lit_def
        ascii_lower_def lower_cp_def ascii_upper_def upper_cp_def)
qed

text \<open>
  Claim C8, as the code has it. \<open>clean_record\<close> has no handler around \<^verbatim>\<open>str\<close>, so it
  raises what \<^verbatim>\<open>str\<close> raises on a value of the dict, and nothing else. For every dict
  whose values \<^verbatim>\<open>str\<close> can render it returns a record; the values that are
  \<^verbatim>\<open>None\<close>, a boolean, a string or an int within the digit limit are rendered. In
  the record returned, a column that is missing under all three spellings, or whose value
  is \<^verbatim>\<open>None\<close>, has its default: the empty string for a plain column, \<^verbatim>\<open>None\<close>
  for the date and \<^verbatim>\<open>True\<close> for \<^verbatim>\<open>DEL_YN\<close>.
\<close>

theorem clean_record_total:
  "((\<forall>v \<in> snd ` set kvs. \<exists>s. py_str bi v = Inr s) \<longrightarrow>
      (\<exists>res. clean_record bi (JDict kvs) = Inr res)) \<and>
   ((\<forall>v \<in> snd ` set kvs. v = JNull \<or> (\<exists>b. v = JBool b) \<or> (\<exists>s. v = JStr s) \<or>
        (\<exists>i. v = JInt i \<and> (int_max_str_digits bi = 0 \<or> \<bar>i\<bar> < 10 ^ int_max_str_digits bi))) \<longrightarrow>
      (\<exists>res. clean_record bi (JDict kvs) = Inr res)) \<and>
   (clean_record bi (JDict kvs) = Inl e \<longrightarrow> (\<exists>v \<in> snd ` set kvs. py_str bi v = Inl e)) \<and>
   (clean_record bi (JDict kvs) = Inr out \<longrightarrow>
      (\<forall>col \<in> set MIXTURE_COLUMNS.
        (map_of kvs col = None \<and> map_of kvs (ascii_lower col) = None \<and>
           map_of kvs (ascii_upper col) = None \<or> resolve (JDict kvs) col = Inr JNull) \<longrightarrow>
        map_of out col =
          Some (if col = lit ''NOTIFICATION_DATE'' then JNull
                else if col = lit ''DEL_YN'' then JBool True else JStr [])))"
proof (intro conjI impI ballI)
  assume "\<forall>v \<in> snd ` set kvs. \<exists>s. py_str bi v = Inr s"
  then show "\<exists>res. clean_record bi (JDict kvs) = Inr res"
    by (rule clean_record_renders)
next
  assume "\<forall>v \<in> snd ` set kvs. v = JNull \<or> (\<exists>b. v = JBool b) \<or> (\<exists>s. v = JStr s) \<or>
        (\<exists>i. v = JInt i \<and> (int_max_str_digits bi = 0 \<or> \<bar>i\<bar> < 10 ^ int_max_str_digits bi))"
  then have "\<forall>v \<in> snd ` set kvs. \<exists>s. py_str bi v = Inr s"
    using scalar_renders [of _ bi] by blast
  then show "\<exists>res. clean_record bi (JDict kvs) = Inr res"
    by (rule clean_record_renders)
next
  assume "clean_record bi (JDict kvs) = Inl e"
  then show "\<exists>v \<in> snd ` set kvs. py_str bi v = Inl e"
    by (rule clean_record_raises)
next
  fix col
  assume "clean_record bi (JDict kvs) = Inr out" and "col \<in> set MIXTURE_COLUMNS"
    and "map_of kvs col = None \<and> map_of kvs (ascii_lower col) = None \<and>
           map_of kvs (ascii_upper col) = None \<or> resolve (JDict kvs) col = Inr JNull"
  then show "map_of out col =
          Some (if col = lit ''NOTIFICATION_DATE'' then JNull
                else if col = lit ''DEL_YN'' then JBool True else JStr [])"
    by (rule clean_record_default)
qed

theorem clean_record_total_witness:
  "\<exists>out. clean_record ascii_builtins (JDict [(lit ''REMARK'', JNull), (lit ''mix'', JInt 3)]) = Inr out \<and>
     map_of out (lit ''REMARK'') = Some (JStr []) \<and>
     map_of out (lit ''ORI'') = Some (JStr []) \<and>
     map_of out (lit ''NOTIFICATION_DATE'') = Some JNull \<and>
     map_of out (lit ''DEL_YN'') = Some (JBool True)"
proof -
  note inst = clean_record_total
      [where bi = ascii_builtins and kvs = "[(lit ''REMARK'', JNull), (lit ''mix'', JInt 3)]"]
  have h: "\<forall>v \<in> snd ` set [(lit ''REMARK'', JNull), (lit ''mix'', JInt 3)].
      \<exists>s. py_str ascii_builtins v = Inr s"
    by (simp add: py_str_scalar py_str_small)
  from inst [where out = "[]" and e = TypeError] h
  obtain out where out: "clean_record ascii_builtins
      (JDict [(lit ''REMARK'', JNull), (lit ''mix'', JInt 3)]) = Inr out"
    by blast
  from inst [where out = out and e = TypeError] out
  have dflt: "\<forall>col \<in> set MIXTURE_COLUMNS.
        (map_of [(lit ''REMARK'', JNull), (lit ''mix'', JInt 3)] col = None \<and>
         map_of [(lit ''REMARK'', JNull), (lit ''mix'', JInt 3)] (ascii_lower col) = None \<and>
         map_of [(lit ''REMARK'', JNull), (lit ''mix'', JInt 3)] (ascii_upper col) = None \<or>
         resolve (JDict [(lit ''REMARK'', JNull), (lit ''mix'', JInt 3)]) col = Inr JNull) \<longrightarrow>
        map_of out col =
          Some (if col = lit ''NOTIFICATION_DATE'' then JNull
                else if col = lit ''DEL_YN'' then JBool True else JStr [])"
    by blast
  have "map_of out (lit ''REMARK'') = Some (JStr [])"
    using dflt [rule_format, of "lit ''REMARK''"]
    by (simp add: MIXTURE_COLUMNS_def resolve_dict lit_def)
  moreover have "map_of out (lit ''ORI'') = Some (JStr [])"
    using dflt [rule_format, of "lit ''ORI''"]
    by (simp add: MIXTURE_COLUMNS_def lit_def ascii_lower_def lower_cp_def ascii_upper_def upper_cp_def)
  moreover have "map_of out (lit ''NOTIFICATION_DATE'') = Some JNull"
    using dflt [rule_format, of "lit ''NOTIFICATION_DATE''"]
    by (simp add: MIXTURE_COLUMNS_def lit_def ascii_lower_def lower_cp_def ascii_upper_def upper_cp_def)
  moreover have "map_of out (lit ''DEL_YN'') = Some (JBool True)"
    using dflt [rule_format, of "lit ''DEL_YN''"]
    by (simp add: MIXTURE_COLUMNS_def lit_def ascii_lower_def lower_cp_def ascii_upper_def upper_cp_def)
  ultimately show ?thesis using out by blast
qed

text \<open>
  With the limit of 4300 digits, \<^verbatim>\<open>str\<close> raises \<^verbatim>\<open>ValueError\<close> for the int
  \<open>10 ^ 4300\<close>, which has 4301 digits, and so does \<open>clean_record\<close> for a dict that has it
  as the value of a plain column.
\<close>

theorem clean_record_raises_counterexample:
  "clean_record ascii_builtins (JDict [(lit ''MIX'', JInt (10 ^ 4300))]) =
     Inl (ValueError (lit ''int_max_str_digits''))"
  by (rule clean_record_digits) simp_all

lemma upper_columns: "\<forall>c \<in> set MIXTURE_COLUMNS. ascii_upper c = c"
  by (simp add: MIXTURE_COLUMNS_def lit_def ascii_upper_def upper_cp_def)

lemma upper_lower_columns: "\<forall>c \<in> set MIXTURE_COLUMNS. ascii_upper (ascii_lower c) = c"
  by (simp add: MIXTURE_COLUMNS_def lit_def ascii_upper_def upper_cp_def ascii_lower_def lower_cp_def)

lemma lower_not_upper_columns: "\<forall>c \<in> set MIXTURE_COLUMNS. ascii_upper (ascii_lower c) \<noteq> ascii_lower c"
  by (simp add: MIXTURE_COLUMNS_def lit_def ascii_upper_def upper_cp_def ascii_lower_def lower_cp_def)

lemma map_of_lower_keys:
  "fst ` set vals \<subseteq> set MIXTURE_COLUMNS \<Longrightarrow> c \<in> set MIXTURE_COLUMNS \<Longrightarrow>
   map_of (map (\<lambda>(k, v). (ascii_lower k, v)) vals) (ascii_lower c) = map_of vals c"
proof (induction vals)
  case Nil
  then show ?case by simp
next
  case (Cons kv vals)
  obtain k v where kv: "kv = (k, v)" by (cases kv)
  have k: "k \<in> set MIXTURE_COLUMNS" using Cons.prems(1) kv by simp
  have "ascii_lower k = ascii_lower c \<longleftrightarrow> k = c"
    using upper_lower_columns k Cons.prems(2) by metis
  then show ?case using Cons kv by auto
qed

lemma map_of_lower_keys_exact:
  assumes "fst ` set vals \<subseteq> set MIXTURE_COLUMNS" and "c \<in> set MIXTURE_COLUMNS"
  shows "map_of (map (\<lambda>(k, v). (ascii_lower k, v)) vals) c = None"
proof -
  have "c \<noteq> ascii_lower k" if "k \<in> set MIXTURE_COLUMNS" for k
  proof
    assume "c = ascii_lower k"
    then have "ascii_upper c = k" using upper_lower_columns that by simp
    then have "c = k" using upper_columns assms(2) by simp
    then show False using \<open>c = ascii_lower k\<close> lower_not_upper_columns upper_lower_columns that by metis
  qed
  then have "c \<notin> fst ` set (map (\<lambda>(k, v). (ascii_lower k, v)) vals)"
    using assms(1) by force
  then show ?thesis by (simp add: map_of_eq_None_iff)
qed

lemma map_upper_keys:
  "fst ` set vals \<subseteq> set MIXTURE_COLUMNS \<Longrightarrow> map (\<lambda>(k, v). (ascii_upper k, v)) vals = vals"
  using upper_columns by (induction vals) auto

lemma resolved_lower:
  assumes "fst ` set vals \<subseteq> set MIXTURE_COLUMNS" and "c \<in> set MIXTURE_COLUMNS"
  shows "resolved (JDict (map (\<lambda>(k, v). (ascii_lower k, v)) vals)) c =
           (case map_of vals c of Some v \<Rightarrow> v | None \<Rightarrow> JNull)"
  using assms upper_columns
  by (simp add: resolved_def resolve_dict map_of_lower_keys map_of_lower_keys_exact
      split: option.splits)

lemma resolved_upper:
  assumes "fst ` set vals \<subseteq> set MIXTURE_COLUMNS" and "c \<in> set MIXTURE_COLUMNS"
  shows "resolved (JDict vals) c = (case map_of vals c of Some v \<Rightarrow> v | None \<Rightarrow> JNull)"
proof -
  have "map_of vals (ascii_lower c) = None"
  proof -
    have "ascii_lower c \<notin> set MIXTURE_COLUMNS"
      using upper_columns lower_not_upper_columns assms(2) by metis
    then have "ascii_lower c \<notin> fst ` set vals" using assms(1) by auto
    then show ?thesis by (simp add: map_of_eq_None_iff)
  qed
  then show ?thesis
    using assms(2) upper_columns
    by (simp add: resolved_def resolve_dict split: option.splits)
qed

lemma clean_loop_cong:
  "\<forall>c \<in> set cols. resolve raw1 c = resolve raw2 c \<Longrightarrow>
   clean_loop bi raw1 cols out = clean_loop bi raw2 cols out"
  by (induction cols arbitrary: out) (auto split: sum.splits)

lemma snd_lower_keys: "snd ` set (map (\<lambda>(k, v). (ascii_lower k, v)) vals) = snd ` set vals"
  by (induction vals) auto

text \<open>
  Claim C6. Each column is resolved to the value found under the exact column name, else
  under its lower case form, else under its upper case form, else to \<^verbatim>\<open>None\<close>, and
  the record returned holds, column by column, the conversions of these values. So for
  every assignment \<open>vals\<close> of values to canonical columns, the record that carries it under
  lower case keys and the record that carries it under upper case keys are normalised to
  the same result, which holds the conversions of the values of \<open>vals\<close>.
\<close>

theorem case_insensitive_lookup:
  assumes "fst ` set vals \<subseteq> set MIXTURE_COLUMNS"
  shows "resolve (JDict kvs) col =
           Inr (case map_of kvs col of Some v \<Rightarrow> v | None \<Rightarrow>
                  (case map_of kvs (ascii_lower col) of Some v \<Rightarrow> v | None \<Rightarrow>
                     (case map_of kvs (ascii_upper col) of Some v \<Rightarrow> v | None \<Rightarrow> JNull))) \<and>
         (clean_record bi (JDict kvs) = Inr out \<longleftrightarrow>
            map (\<lambda>(k, x). (k, Inr x)) out =
              map (\<lambda>col. (col, convert bi col
                     (case map_of kvs col of Some v \<Rightarrow> v | None \<Rightarrow>
                        (case map_of kvs (ascii_lower col) of Some v \<Rightarrow> v | None \<Rightarrow>
                           (case map_of kvs (ascii_upper col) of Some v \<Rightarrow> v | None \<Rightarrow> JNull)))))
                MIXTURE_COLUMNS) \<and>
         clean_record bi (JDict (map (\<lambda>(k, v). (ascii_lower k, v)) vals)) =
           clean_record bi (JDict (map (\<lambda>(k, v). (ascii_upper k, v)) vals)) \<and>
         (clean_record bi (JDict (map (\<lambda>(k, v). (ascii_lower k, v)) vals)) = Inr out \<longleftrightarrow>
            map (\<lambda>(k, x). (k, Inr x)) out =
              map (\<lambda>c. (c, convert bi c (case map_of vals c of Some v \<Rightarrow> v | None \<Rightarrow> JNull)))
                MIXTURE_COLUMNS) \<and>
         ((\<forall>v \<in> snd ` set vals. \<exists>s. py_str bi v = Inr s) \<longrightarrow>
            (\<exists>res. clean_record bi (JDict (map (\<lambda>(k, v). (ascii_lower k, v)) vals)) = Inr res))"
proof (intro conjI impI)
  show "resolve (JDict kvs) col =
           Inr (case map_of kvs col of Some v \<Rightarrow> v | None \<Rightarrow>
                  (case map_of kvs (ascii_lower col) of Some v \<Rightarrow> v | None \<Rightarrow>
                     (case map_of kvs (ascii_upper col) of Some v \<Rightarrow> v | None \<Rightarrow> JNull)))"
    by (rule resolve_dict)
  show "clean_record bi (JDict kvs) = Inr out \<longleftrightarrow>
            map (\<lambda>(k, x). (k, Inr x)) out =
              map (\<lambda>col. (col, convert bi col
                     (case map_of kvs col of Some v \<Rightarrow> v | None \<Rightarrow>
                        (case map_of kvs (ascii_lower col) of Some v \<Rightarrow> v | None \<Rightarrow>
                           (case map_of kvs (ascii_upper col) of Some v \<Rightarrow> v | None \<Rightarrow> JNull)))))
                MIXTURE_COLUMNS"
    by (simp add: clean_record_dict resolved_def resolve_dict)
  have same: "\<forall>c \<in> set MIXTURE_COLUMNS.
      resolve (JDict (map (\<lambda>(k, v). (ascii_lower k, v)) vals)) c =
      resolve (JDict (map (\<lambda>(k, v). (ascii_upper k, v)) vals)) c"
    using assms by (simp add: resolve_dict_resolved resolved_lower resolved_upper map_upper_keys)
  show "clean_record bi (JDict (map (\<lambda>(k, v). (ascii_lower k, v)) vals)) =
           clean_record bi (JDict (map (\<lambda>(k, v). (ascii_upper k, v)) vals))"
    unfolding clean_record_def using same by (rule clean_loop_cong)
  have "map (\<lambda>c. (c, convert bi c (resolved (JDict (map (\<lambda>(k, v). (ascii_lower k, v)) vals)) c)))
          MIXTURE_COLUMNS =
        map (\<lambda>c. (c, convert bi c (case map_of vals c of Some v \<Rightarrow> v | None \<Rightarrow> JNull)))
          MIXTURE_COLUMNS"
    using assms by (simp add: resolved_lower)
  then show "clean_record bi (JDict (map (\<lambda>(k, v). (ascii_lower k, v)) vals)) = Inr out \<longleftrightarrow>
            map (\<lambda>(k, x). (k, Inr x)) out =
              map (\<lambda>c. (c, convert bi c (case map_of vals c of Some v \<Rightarrow> v | None \<Rightarrow> JNull)))
                MIXTURE_COLUMNS"
    by (simp only: clean_record_dict)
next
  assume "\<forall>v \<in> snd ` set vals. \<exists>s. py_str bi v = Inr s"
  then have "\<forall>v \<in> snd ` set (map (\<lambda>(k, v). (ascii_lower k, v)) vals). \<exists>s. py_str bi v = Inr s"
    by (simp only: snd_lower_keys)
  then show "\<exists>res. clean_record bi (JDict (map (\<lambda>(k, v). (ascii_lower k, v)) vals)) = Inr res"
    by (rule clean_record_renders)
qed

theorem case_insensitive_lookup_witness:
  "clean_record ascii_builtins (JDict [(lit ''type_name'', JStr (lit ''x'')), (lit ''del_yn'', JInt 0)]) =
   clean_record ascii_builtins (JDict [(lit ''TYPE_NAME'', JStr (lit ''x'')), (lit ''DEL_YN'', JInt 0)]) \<and>
   (\<exists>out. clean_record ascii_builtins
       (JDict [(lit ''type_name'', JStr (lit ''x'')), (lit ''del_yn'', JInt 0)]) = Inr out)"
proof -
  have h: "fst ` set [(lit ''TYPE_NAME'', JStr (lit ''x'')), (lit ''DEL_YN'', JInt 0)] \<subseteq> set MIXTURE_COLUMNS"
    by (simp add: MIXTURE_COLUMNS_def)
  have r: "\<forall>v \<in> snd ` set [(lit ''TYPE_NAME'', JStr (lit ''x'')), (lit ''DEL_YN'', JInt 0)].
      \<exists>s. py_str ascii_builtins v = Inr s"
    by (simp add: py_str_scalar py_str_small)
  have l: "ascii_lower (lit ''TYPE_NAME'') = lit ''type_name''" "ascii_lower (lit ''DEL_YN'') = lit ''del_yn''"
    by (simp_all add: lit_def ascii_lower_def lower_cp_def)
  have u: "ascii_upper (lit ''TYPE_NAME'') = lit ''TYPE_NAME''" "ascii_upper (lit ''DEL_YN'') = lit ''DEL_YN''"
    by (simp_all add: lit_def ascii_upper_def upper_cp_def)
  have ml: "map (\<lambda>(k, v). (ascii_lower k, v)) [(lit ''TYPE_NAME'', JStr (lit ''x'')), (lit ''DEL_YN'', JInt 0)] =
      [(lit ''type_name'', JStr (lit ''x'')), (lit ''del_yn'', JInt 0)]"
    by (simp add: l)
  have mu: "map (\<lambda>(k, v). (ascii_upper k, v)) [(lit ''TYPE_NAME'', JStr (lit ''x'')), (lit ''DEL_YN'', JInt 0)] =
      [(lit ''TYPE_NAME'', JStr (lit ''x'')), (lit ''DEL_YN'', JInt 0)]"
    by (simp add: u)
  note inst = case_insensitive_lookup
    [OF h, where kvs = "[]" and col = "lit ''DEL_YN''" and bi = ascii_builtins and out = "[]"]
  have "clean_record ascii_builtins (JDict (map (\<lambda>(k, v). (ascii_lower k, v))
          [(lit ''TYPE_NAME'', JStr (lit ''x'')), (lit ''DEL_YN'', JInt 0)])) =
        clean_record ascii_builtins (JDict (map (\<lambda>(k, v). (ascii_upper k, v))
          [(lit ''TYPE_NAME'', JStr (lit ''x'')), (lit ''DEL_YN'', JInt 0)]))"
    using inst by blast
  moreover have "\<exists>res. clean_record ascii_builtins (JDict (map (\<lambda>(k, v). (ascii_lower k, v))
          [(lit ''TYPE_NAME'', JStr (lit ''x'')), (lit ''DEL_YN'', JInt 0)])) = Inr res"
    using inst r by blast
  ultimately show ?thesis
    unfolding ml mu by (rule conjI)
qed

lemma py_slice_nonneg:
  "py_slice xs (int a) (int b) = take (min (length xs) b - min (length xs) a) (drop (min (length xs) a) xs)"
  by (simp add: py_slice_def clamp_index_def Let_def)









section \<open>Properties of the division\<close>

lemma ceiling_quotient: "\<lceil>(of_int a :: rat) / of_int b\<rceil> = - ((- a) div b)"
proof -
  have "\<lceil>(of_int a :: rat) / of_int b\<rceil> = - \<lfloor>(of_int (- a) :: rat) / of_int b\<rfloor>"
    by (simp add: ceiling_def)
  then show ?thesis
    by (simp only: floor_divide_of_int_eq)
qed

lemma ceiling_quotient_bounds:
  assumes "0 < b"
  shows "(\<lceil>(of_int a :: rat) / of_int b\<rceil> - 1) * b < a \<and> a \<le> \<lceil>(of_int a :: rat) / of_int b\<rceil> * b"
proof -
  let ?x = "(of_int a :: rat) / of_int b"
  have b: "(0::rat) < of_int b" using assms by simp
  have "of_int \<lceil>?x\<rceil> - 1 < ?x"
    by linarith
  then have lo: "(of_int \<lceil>?x\<rceil> - 1) * of_int b < (of_int a :: rat)"
    by (simp only: pos_less_divide_eq [OF b])
  have "?x \<le> of_int \<lceil>?x\<rceil>"
    by linarith
  then have hi: "(of_int a :: rat) \<le> of_int \<lceil>?x\<rceil> * of_int b"
    by (simp only: pos_divide_le_eq [OF b])
  from lo hi have "(of_int ((\<lceil>?x\<rceil> - 1) * b) :: rat) < of_int a"
    and "(of_int a :: rat) \<le> of_int (\<lceil>?x\<rceil> * b)"
    by simp_all
  then show ?thesis
    by (simp only: of_int_less_iff of_int_le_iff)
qed

lemma bits_bounds: "0 < n \<Longrightarrow> 2 ^ (bits n - 1) \<le> n \<and> n < 2 ^ bits n"
proof (induction n rule: bits.induct)
  case (1 n)
  show ?case
  proof (cases "n div 2 = 0")
    case True
    then have "n = 1" using "1.prems" by linarith
    then show ?thesis by (simp add: bits.simps)
  next
    case False
    then have ih: "2 ^ (bits (n div 2) - 1) \<le> n div 2 \<and> n div 2 < 2 ^ bits (n div 2)"
      using "1.IH" "1.prems" by simp
    have pos: "0 < bits (n div 2)" using False by (simp add: bits.simps)
    have b: "bits n = Suc (bits (n div 2))" using "1.prems" by (simp add: bits.simps)
    have "2 * 2 ^ (bits (n div 2) - 1) \<le> n" using ih by linarith
    moreover have "2 * 2 ^ (bits (n div 2) - 1) = (2::nat) ^ bits (n div 2)"
      using pos by (cases "bits (n div 2)") simp_all
    moreover have "n < 2 * 2 ^ bits (n div 2)" using ih by linarith
    ultimately show ?thesis by (simp add: b)
  qed
qed

lemma rhe_le: "y \<le> of_int z \<Longrightarrow> round_half_even y \<le> z"
proof -
  assume a: "y \<le> of_int z"
  have f: "\<lfloor>y\<rfloor> \<le> z" using a by (simp add: floor_le_iff)
  show ?thesis
  proof (cases "\<lfloor>y\<rfloor> = z")
    case True
    then have "y = of_int z" using a by linarith
    then show ?thesis by (simp add: round_half_even_def)
  next
    case False
    then have "\<lfloor>y\<rfloor> + 1 \<le> z" using f by simp
    then show ?thesis by (simp add: round_half_even_def Let_def)
  qed
qed

lemma rhe_gt: "of_int z + 1 / 2 < y \<Longrightarrow> z < round_half_even y"
proof -
  assume a: "of_int z + 1 / 2 < y"
  have f: "z \<le> \<lfloor>y\<rfloor>" using a by (simp add: le_floor_iff)
  show ?thesis
  proof (cases "\<lfloor>y\<rfloor> = z")
    case True
    then have "1 / 2 < y - of_int \<lfloor>y\<rfloor>" using a by simp
    then show ?thesis using True by (simp add: round_half_even_def Let_def)
  next
    case False
    then have "z < \<lfloor>y\<rfloor>" using f by simp
    then show ?thesis by (simp add: round_half_even_def Let_def)
  qed
qed


lemma floor_log2:
  assumes "0 < n" and "0 < d"
  defines "x \<equiv> (of_nat n :: rat) / of_nat d"
    and "e0 \<equiv> int (bits n) - int (bits d)"
  defines "e \<equiv> (if 2 powi e0 \<le> x then e0 else e0 - 1)"
  shows "2 powi e \<le> x" and "x < 2 powi (e + 1)"
proof -
  have bn: "2 ^ (bits n - 1) \<le> n" "n < 2 ^ bits n"
    and bd: "2 ^ (bits d - 1) \<le> d" "d < 2 ^ bits d"
    using bits_bounds [OF assms(1)] bits_bounds [OF assms(2)] by simp_all
  have pn: "0 < bits n" and pd: "0 < bits d"
    using assms(1,2) by (simp_all add: bits.simps)
  have dpos: "(0::rat) < of_nat d" using assms(2) by simp
  have n_lo: "(2::rat) powi (int (bits n) - 1) \<le> of_nat n"
  proof -
    have "(2::rat) powi (int (bits n) - 1) = 2 ^ (bits n - 1)"
      using pn by (simp add: power_int_def)
    also have "\<dots> = of_nat (2 ^ (bits n - 1))" by simp
    also have "\<dots> \<le> of_nat n" using bn(1) by (simp only: of_nat_le_iff)
    finally show ?thesis .
  qed
  have n_hi: "(of_nat n :: rat) < 2 powi int (bits n)"
  proof -
    have "(of_nat n :: rat) < of_nat (2 ^ bits n)" using bn(2) by (simp only: of_nat_less_iff)
    then show ?thesis by simp
  qed
  have d_lo: "(2::rat) powi (int (bits d) - 1) \<le> of_nat d"
  proof -
    have "(2::rat) powi (int (bits d) - 1) = 2 ^ (bits d - 1)"
      using pd by (simp add: power_int_def)
    also have "\<dots> = of_nat (2 ^ (bits d - 1))" by simp
    also have "\<dots> \<le> of_nat d" using bd(1) by (simp only: of_nat_le_iff)
    finally show ?thesis .
  qed
  have d_hi: "(of_nat d :: rat) < 2 powi int (bits d)"
  proof -
    have "(of_nat d :: rat) < of_nat (2 ^ bits d)" using bd(2) by (simp only: of_nat_less_iff)
    then show ?thesis by simp
  qed
  have split_lo: "(2::rat) powi (e0 - 1) * 2 powi int (bits d) = 2 powi (int (bits n) - 1)"
  proof -
    have "(2::rat) powi (e0 - 1) * 2 powi int (bits d) = 2 powi ((e0 - 1) + int (bits d))"
      by (rule power_int_add [symmetric]) simp
    moreover have "(e0 - 1) + int (bits d) = int (bits n) - 1"
      by (simp add: e0_def)
    ultimately show ?thesis by (simp only:)
  qed
  have split_hi: "(2::rat) powi int (bits n) = 2 powi (e0 + 1) * 2 powi (int (bits d) - 1)"
  proof -
    have "(2::rat) powi ((e0 + 1) + (int (bits d) - 1)) = 2 powi (e0 + 1) * 2 powi (int (bits d) - 1)"
      by (rule power_int_add) simp
    moreover have "(e0 + 1) + (int (bits d) - 1) = int (bits n)"
      by (simp add: e0_def)
    ultimately show ?thesis by (simp only:)
  qed
  have lo: "(2::rat) powi (e0 - 1) \<le> x"
  proof -
    have "(2::rat) powi (e0 - 1) * of_nat d \<le> 2 powi (e0 - 1) * 2 powi int (bits d)"
      using d_hi by (simp add: mult_left_mono)
    also have "\<dots> = 2 powi (int (bits n) - 1)"
      by (rule split_lo)
    also have "\<dots> \<le> of_nat n" by (rule n_lo)
    finally show ?thesis using dpos by (simp add: x_def pos_le_divide_eq)
  qed
  have hi: "x < (2::rat) powi (e0 + 1)"
  proof -
    have "(of_nat n :: rat) < 2 powi int (bits n)" by (rule n_hi)
    also have "\<dots> = 2 powi (e0 + 1) * 2 powi (int (bits d) - 1)"
      by (rule split_hi)
    also have "\<dots> \<le> 2 powi (e0 + 1) * of_nat d"
      using d_lo by (simp add: mult_left_mono)
    finally show ?thesis using dpos by (simp add: x_def pos_divide_less_eq)
  qed
  show "2 powi e \<le> x" using lo by (simp add: e_def)
  show "x < 2 powi (e + 1)" using hi by (auto simp: e_def not_le)
qed

lemma round_double_ceiling:
  assumes n: "0 < n" "n < 2 ^ 53" and d: "0 < d" "d < 2 ^ 1075"
  shows "\<exists>r. round_double n d = Some r \<and> \<lceil>r\<rceil> = \<lceil>(of_nat n :: rat) / of_nat d\<rceil>"
proof -
  define x where "x = (of_nat n :: rat) / of_nat d"
  define e0 where "e0 = int (bits n) - int (bits d)"
  define e where "e = (if 2 powi e0 \<le> x then e0 else e0 - 1)"
  define q where "q = max (e - 52) (- 1074)"
  define m where "m = round_half_even (x / 2 powi q)"
  define r where "r = of_int m * (2::rat) powi q"
  define t where "t = \<lceil>x\<rceil>"
  define k where "k = nat (- q)"
  have dpos: "(0::rat) < of_nat d" using d(1) by simp
  have xpos: "0 < x" using n(1) d(1) by (simp add: x_def)
  have e_lo: "2 powi e \<le> x"
    unfolding x_def e_def e0_def by (rule floor_log2 (1) [OF n(1) d(1)])
  have x_hi: "x < 2 ^ 53"
  proof -
    have "(of_nat n :: rat) < of_nat (2 ^ 53)" using n(2) by (simp only: of_nat_less_iff)
    moreover have "(1::rat) \<le> of_nat d" using d(1) by simp
    then have "(2::rat) ^ 53 * 1 \<le> 2 ^ 53 * of_nat d"
      by (intro mult_left_mono) simp_all
    ultimately have "(of_nat n :: rat) < 2 ^ 53 * of_nat d"
      by simp
    then show ?thesis using dpos by (simp add: x_def pos_divide_less_eq)
  qed
  have e_hi: "e \<le> 52"
  proof (rule ccontr)
    assume "\<not> e \<le> 52"
    then have "53 \<le> e" by simp
    then have "(2::rat) powi 53 \<le> 2 powi e" by (intro power_int_increasing) simp_all
    then show False using e_lo x_hi by simp
  qed
  have q0: "q \<le> 0" using e_hi by (simp add: q_def)
  have pq: "(2::rat) powi q = 1 / 2 ^ k"
  proof -
    have "q = - int k" using q0 by (simp add: k_def)
    then show ?thesis by (simp add: power_int_minus field_simps)
  qed
  have y: "x / 2 powi q = x * 2 ^ k" by (simp add: pq)
  have t_hi: "x \<le> of_int t" and t_lo: "of_int t - 1 < x"
    unfolding t_def by linarith+
  \<comment> \<open>the rounded value does not exceed the ceiling\<close>
  have "x * 2 ^ k \<le> of_int (t * 2 ^ k)"
    using t_hi by (simp add: mult_right_mono)
  then have m_hi: "m \<le> t * 2 ^ k"
    unfolding m_def y by (rule rhe_le)
  have r_hi: "r \<le> of_int t"
  proof -
    have "(of_int m :: rat) \<le> of_int (t * 2 ^ k)" using m_hi by (simp only: of_int_le_iff)
    then have "(of_int m :: rat) \<le> of_int t * 2 ^ k" by simp
    then show ?thesis by (simp add: r_def pq pos_divide_le_eq)
  qed
  \<comment> \<open>the quotient is above the integer below it by at least \<open>1 / d\<close>\<close>
  have gap: "of_int t - 1 + 1 / of_nat d \<le> x"
  proof -
    have "(of_int (t - 1) :: rat) * of_nat d < of_nat n"
      using t_lo dpos by (simp add: x_def pos_less_divide_eq)
    then have "(of_int ((t - 1) * int d) :: rat) < of_int (int n)" by simp
    then have "(t - 1) * int d < int n" by (simp only: of_int_less_iff)
    then have "(t - 1) * int d + 1 \<le> int n" by simp
    then have "(of_int ((t - 1) * int d + 1) :: rat) \<le> of_int (int n)" by (simp only: of_int_le_iff)
    then have "(of_int t - 1) * of_nat d + 1 \<le> (of_nat n :: rat)" by simp
    then have "((of_int t - 1) * of_nat d + 1) / of_nat d \<le> (of_nat n :: rat) / of_nat d"
      using dpos by (simp add: divide_right_mono)
    then show ?thesis using dpos by (simp add: x_def add_divide_distrib)
  qed
  \<comment> \<open>half a unit in the last place is less than \<open>1 / d\<close>\<close>
  have ulp: "(2::rat) powi q / 2 < 1 / of_nat d"
  proof (cases "e - 52 \<le> - 1074")
    case True
    then have "q = - 1074" by (simp add: q_def)
    moreover have "(of_nat d :: rat) < of_nat (2 ^ 1075)" using d(2) by (simp only: of_nat_less_iff)
    then have "(of_nat d :: rat) < 2 * 2 ^ 1074" by simp
    ultimately show ?thesis using dpos by (simp add: power_int_minus field_simps)
  next
    case False
    then have q: "q = e - 52" by (simp add: q_def)
    have "(2::rat) powi q = 2 powi e / 2 ^ 52"
      by (simp add: q power_int_diff)
    then have "(2::rat) powi q / 2 = 2 powi e / 2 ^ 53" by simp
    also have "\<dots> \<le> x / 2 ^ 53" using e_lo by (simp add: divide_right_mono)
    also have "\<dots> < 1 / of_nat d"
    proof -
      have "(of_nat n :: rat) < of_nat (2 ^ 53)" using n(2) by (simp only: of_nat_less_iff)
      then have "(of_nat n :: rat) < 2 ^ 53" by simp
      then have "(of_nat n :: rat) / of_nat d < 2 ^ 53 / of_nat d"
        using dpos by (simp add: divide_strict_right_mono)
      then show ?thesis by (simp add: x_def field_simps)
    qed
    finally show ?thesis .
  qed
  have "of_int t - 1 + 2 powi q / 2 < x" using gap ulp by linarith
  then have "(of_int t - 1 + 2 powi q / 2) * 2 ^ k < x * 2 ^ k"
    by (simp add: mult_strict_right_mono)
  moreover have "(of_int t - 1 + 2 powi q / 2) * 2 ^ k = of_int ((t - 1) * 2 ^ k) + (1::rat) / 2"
    by (simp add: pq algebra_simps)
  ultimately have "of_int ((t - 1) * 2 ^ k) + 1 / 2 < x * 2 ^ k" by simp
  then have m_lo: "(t - 1) * 2 ^ k < m"
    unfolding m_def y by (rule rhe_gt)
  have r_lo: "of_int t - 1 < r"
  proof -
    have "(t - 1) * 2 ^ k + 1 \<le> m" using m_lo by simp
    then have "(of_int ((t - 1) * 2 ^ k + 1) :: rat) \<le> of_int m" by (simp only: of_int_le_iff)
    then have "(of_int t - 1) * 2 ^ k + 1 \<le> (of_int m :: rat)" by simp
    then have "((of_int t - 1) * 2 ^ k + 1) / 2 ^ k \<le> (of_int m :: rat) / 2 ^ k"
      by (simp add: divide_right_mono)
    then have "of_int t - 1 + 1 / 2 ^ k \<le> (of_int m :: rat) / 2 ^ k"
      by (simp add: add_divide_distrib)
    moreover have "(0::rat) < 1 / 2 ^ k" by simp
    ultimately have "of_int t - 1 < (of_int m :: rat) / 2 ^ k" by linarith
    then show ?thesis by (simp add: r_def pq)
  qed
  have ceil: "\<lceil>r\<rceil> = t" using r_lo r_hi by (rule ceiling_unique)
  have small: "\<not> 2 powi 1024 \<le> r"
  proof -
    have "of_int t - 1 < (2::rat) ^ 53" using t_lo x_hi by linarith
    then have "(of_int (t - 1) :: rat) < of_int (2 ^ 53)" by simp
    then have "t - 1 < 2 ^ 53" by (simp only: of_int_less_iff)
    then have "t \<le> 2 ^ 53" by simp
    then have "(of_int t :: rat) \<le> of_int (2 ^ 53)" by (simp only: of_int_le_iff)
    then have "r \<le> 2 ^ 53" using r_hi by simp
    moreover have "(2::rat) ^ 53 < 2 powi 1024" by simp
    ultimately show ?thesis by linarith
  qed
  have "round_double n d = Some r"
    using n(1) small
    by (simp add: round_double_def Let_def x_def [symmetric] e0_def [symmetric]
        e_def [symmetric] q_def [symmetric] m_def [symmetric] r_def [symmetric])
  then show ?thesis using ceil by (simp add: t_def x_def)
qed

text \<open>
  For a dividend below \<open>2 ^ 53\<close> and a divisor below \<open>2 ^ 1075\<close> the ceiling of the double
  is the ceiling of the quotient. (A larger dividend can be rounded across an int, and a
  larger divisor can round the quotient down to 0.)
\<close>

lemma py_truediv_ceiling:
  assumes "0 \<le> a" and "a < 2 ^ 53" and "0 < b" and "b < 2 ^ 1075"
  shows "\<exists>quot. py_truediv a b = Inr quot \<and> math_ceil quot = \<lceil>(of_int a :: rat) / of_int b\<rceil>"
proof (cases "a = 0")
  case True
  then show ?thesis
    using assms(3) by (simp add: py_truediv_def round_double_def math_ceil_def)
next
  case False
  have n: "0 < nat a" "nat a < 2 ^ 53" using assms(1,2) False by simp_all
  have d: "0 < nat b" "nat b < 2 ^ 1075" using assms(3,4) by simp_all
  obtain r where r: "round_double (nat a) (nat b) = Some r"
    and c: "\<lceil>r\<rceil> = \<lceil>(of_nat (nat a) :: rat) / of_nat (nat b)\<rceil>"
    using round_double_ceiling [OF n d] by blast
  have "(of_nat (nat a) :: rat) = of_int a" "(of_nat (nat b) :: rat) = of_int b"
    using assms(1,3) by simp_all
  then have "\<lceil>r\<rceil> = \<lceil>(of_int a :: rat) / of_int b\<rceil>" using c by simp
  moreover have "py_truediv a b = Inr r"
    using assms(1,3) r by (simp add: py_truediv_def)
  ultimately show ?thesis by (simp add: math_ceil_def)
qed

lemma py_truediv_zero: "b \<noteq> 0 \<Longrightarrow> py_truediv 0 b = Inr 0"
  by (simp add: py_truediv_def round_double_def)

lemma total_pages_int:
  assumes "0 \<le> n" and "n < 2 ^ 53" and "0 < num_of_rows" and "num_of_rows < 2 ^ 1075"
  shows "total_pages_of (JInt n) num_of_rows = Inr (- ((- n) div num_of_rows))"
proof -
  obtain quot where "py_truediv n num_of_rows = Inr quot"
    and "math_ceil quot = \<lceil>(of_int n :: rat) / of_int num_of_rows\<rceil>"
    using py_truediv_ceiling [OF assms] by blast
  then show ?thesis
    using assms(3) by (simp add: total_pages_of_def num_val_def ceiling_quotient)
qed

text \<open>
  Beyond that bound the rounding shows: \<open>2 ^ 53 + 1\<close> is half way between two doubles and
  goes to the even one, so a count of \<open>2 ^ 53 + 1\<close> with a page size of 1 gives \<open>2 ^ 53\<close>
  pages.
\<close>

lemma bits_double: "0 < n \<Longrightarrow> bits (2 * n) = Suc (bits n)"
  by (simp add: bits.simps [of "2 * n"])

lemma bits_double_Suc: "bits (Suc (2 * n)) = Suc (bits n)"
  by (simp add: bits.simps [of "Suc (2 * n)"])

lemma bits_pow2: "bits (2 ^ k) = Suc k"
proof (induction k)
  case 0
  show ?case by (simp add: bits.simps [of "Suc 0"] bits.simps [of 0])
next
  case (Suc k)
  then show ?case using bits_double [of "2 ^ k"] by simp
qed

lemma bits_pow2_Suc: "0 < k \<Longrightarrow> bits (2 ^ k + 1) = Suc k"
proof -
  assume "0 < k"
  then obtain j where k: "k = Suc j" by (cases k) auto
  have "bits (Suc (2 * 2 ^ j)) = Suc (bits (2 ^ j))" by (rule bits_double_Suc)
  then show ?thesis by (simp add: k bits_pow2)
qed

lemma rhe_tie: "round_half_even ((2 ^ 53 + 1) / 2) = 2 ^ 52"
proof -
  have "\<lfloor>(of_int (2 ^ 53 + 1) :: rat) / of_int 2\<rfloor> = (2 ^ 53 + 1) div 2"
    by (rule floor_divide_of_int_eq)
  then have f: "\<lfloor>((2 ^ 53 + 1) :: rat) / 2\<rfloor> = 2 ^ 52" by simp
  show ?thesis
    unfolding round_half_even_def Let_def f by simp
qed

lemma double_rounds_across_int: "py_truediv (2 ^ 53 + 1) 1 = Inr (2 ^ 53)"
proof -
  have n: "nat \<bar>2 ^ 53 + 1 :: int\<bar> = 2 ^ 53 + 1" by simp
  have b: "bits (2 ^ 53 + 1) = 54" "bits 1 = 1"
    using bits_pow2_Suc [of 53] bits_pow2 [of 0] by simp_all
  have "round_double (2 ^ 53 + 1) 1 = Some (2 ^ 53)"
    unfolding round_double_def Let_def b
    using rhe_tie by (simp add: power_int_def)
  then show ?thesis
    unfolding py_truediv_def n by simp
qed

lemma total_pages_rounded: "total_pages_of (JInt (2 ^ 53 + 1)) 1 = Inr (2 ^ 53)"
  using double_rounds_across_int by (simp add: total_pages_of_def num_val_def math_ceil_def)

section \<open>Properties of the collector\<close>

lemma total_pages_bounds:
  assumes "0 \<le> n" and "n < 2 ^ 53" and "0 < ps" and "ps < 2 ^ 1075"
  shows "\<exists>p. total_pages_of (JInt n) ps = Inr p \<and> (p - 1) * ps < n \<and> n \<le> p * ps \<and>
           0 \<le> p \<and> (p = 0 \<longleftrightarrow> n = 0) \<and> p = - ((- n) div ps) \<and>
           p = \<lceil>(of_int n :: rat) / of_int ps\<rceil>"
proof -
  let ?p = "\<lceil>(of_int n :: rat) / of_int ps\<rceil>"
  have tp: "total_pages_of (JInt n) ps = Inr ?p"
    using total_pages_int [OF assms] by (simp add: ceiling_quotient)
  have bnd: "(?p - 1) * ps < n" "n \<le> ?p * ps"
    using ceiling_quotient_bounds [OF assms(3), of n] by simp_all
  have "(0::rat) \<le> of_int n / of_int ps"
    using assms(1,3) by simp
  then have nonneg: "0 \<le> ?p"
    by (simp add: le_ceiling_iff)
  have zero: "?p = 0 \<longleftrightarrow> n = 0"
  proof
    assume "?p = 0"
    then show "n = 0" using bnd(2) assms(1) by simp
  next
    assume "n = 0"
    then have "(?p - 1) * ps < 0" using bnd(1) by simp
    then have "?p - 1 < 0" using assms(3) by (simp add: mult_less_0_iff)
    then show "?p = 0" using nonneg by linarith
  qed
  show ?thesis
    using tp bnd nonneg zero ceiling_quotient [of n ps] by simp
qed

lemma total_pages_nonpos: "ps \<le> 0 \<Longrightarrow> total_pages_of v ps = Inr 1"
  by (simp add: total_pages_of_def)

text \<open>
  Claim C1, as the code has it. For a count \<open>0 \<le> n < 2 ^ 53\<close> and a page size
  \<open>0 < ps < 2 ^ 1075\<close> (where the ceiling of the double is that of the quotient), the number
  of pages is the ceiling of \<open>n / ps\<close>: the least \<open>p\<close> with \<open>n \<le> p * ps\<close>. There
  is no minimum of 1: the number of pages is 0 exactly when the count is 0. In particular a
  count of 1001 with a page size of 500 gives 3 pages, and a count of 0 gives 0 pages.
\<close>

theorem total_pages_ceiling:
  "(0 \<le> n \<and> n < 2 ^ 53 \<and> 0 < ps \<and> ps < 2 ^ 1075 \<longrightarrow>
      (\<exists>p. total_pages_of (JInt n) ps = Inr p \<and> p = \<lceil>(of_int n :: rat) / of_int ps\<rceil> \<and>
           (p - 1) * ps < n \<and> n \<le> p * ps \<and> 0 \<le> p \<and> (p = 0 \<longleftrightarrow> n = 0) \<and>
           p = - ((- n) div ps))) \<and>
   total_pages_of (JInt 1001) 500 = Inr 3 \<and>
   (0 < ps \<longrightarrow> total_pages_of (JInt 0) ps = Inr 0)"
proof (intro conjI impI)
  assume "0 \<le> n \<and> n < 2 ^ 53 \<and> 0 < ps \<and> ps < 2 ^ 1075"
  then show "\<exists>p. total_pages_of (JInt n) ps = Inr p \<and> p = \<lceil>(of_int n :: rat) / of_int ps\<rceil> \<and>
           (p - 1) * ps < n \<and> n \<le> p * ps \<and> 0 \<le> p \<and> (p = 0 \<longleftrightarrow> n = 0) \<and>
           p = - ((- n) div ps)"
    using total_pages_bounds [of n ps] by blast
next
  have "total_pages_of (JInt 1001) 500 = Inr (- ((- 1001) div 500))"
    by (rule total_pages_int) simp_all
  then show "total_pages_of (JInt 1001) 500 = Inr 3" by simp
next
  assume "0 < ps"
  then show "total_pages_of (JInt 0) ps = Inr 0"
    by (simp add: total_pages_of_def num_val_def py_truediv_zero math_ceil_def)
qed

theorem total_pages_ceiling_witness:
  "total_pages_of (JInt 1) 500 = Inr 1 \<and> total_pages_of (JInt 1000) 500 = Inr 2 \<and>
   total_pages_of (JInt 1001) 500 = Inr 3 \<and> total_pages_of (JInt 0) 500 = Inr 0"
proof -
  have "total_pages_of (JInt 1) 500 = Inr (- ((- 1) div 500))"
    using total_pages_ceiling [of 1 500] by auto
  moreover have "total_pages_of (JInt 1000) 500 = Inr (- ((- 1000) div 500))"
    using total_pages_ceiling [of 1000 500] by auto
  moreover have "total_pages_of (JInt 1001) 500 = Inr 3 \<and> total_pages_of (JInt 0) 500 = Inr 0"
    using total_pages_ceiling [of 0 500] by auto
  ultimately show ?thesis by simp
qed

text \<open>A count of 0 with a page size of 500 gives 0 pages, not 1.\<close>

theorem total_pages_zero_counterexample:
  "total_pages_of (JInt 0) 500 = Inr 0 \<and> total_pages_of (JInt 0) 500 \<noteq> Inr 1"
  by (simp add: total_pages_of_def num_val_def py_truediv_zero math_ceil_def)

lemma py_or_idem: "py_or (py_or a b) b = py_or a b"
  by (cases a; cases b) (auto simp: py_or_def)


text \<open>
  Claim C10. When the page size is positive and the probe is answered with a dict that has
  no \<^verbatim>\<open>body\<close>, or whose \<^verbatim>\<open>body\<close> is a dict with no \<^verbatim>\<open>totalCount\<close> or with
  \<^verbatim>\<open>totalCount\<close> 0, \<open>fetch_all_from_api\<close> makes the probe request and no other call, and
  returns the empty list.
\<close>

theorem zero_count_no_pages:
  assumes "0 < num_of_rows"
    and "env tr (HttpGet base_url (py_or service_key (MIXTURE_API_SERVICE_KEY cfg)) 1 1)
           = Inr (JDict first_page)"
    and "map_of first_page (lit ''body'') = None \<or>
         (\<exists>body. map_of first_page (lit ''body'') = Some (JDict body) \<and>
            (map_of body (lit ''totalCount'') = None \<or>
             map_of body (lit ''totalCount'') = Some (JInt 0)))"
  shows "fetch_all_from_api env cfg base_url num_of_rows service_key tr =
           (tr @ [HttpGet base_url (py_or service_key (MIXTURE_API_SERVICE_KEY cfg)) 1 1], Inr [])"
proof -
  have count: "\<exists>body. py_get (JDict first_page) (lit ''body'') (JDict []) = Inr body \<and>
                  py_get body (lit ''totalCount'') (JInt 0) = Inr (JInt 0)"
    using assms(3) by (auto simp: py_get_def)
  have pages: "total_pages_of (JInt 0) num_of_rows = Inr 0"
    using assms(1) by (simp add: total_pages_of_def num_val_def py_truediv_zero math_ceil_def)
  show ?thesis
    using count pages assms(2)
    by (auto simp: fetch_all_from_api_def fetch_page_def perform_def py_or_idem Let_def)
qed

theorem zero_count_no_pages_witness:
  "(0::int) < 500 \<and>
   fetch_all_from_api
     (\<lambda>tr c. Inr (JDict [(lit ''body'', JDict [(lit ''totalCount'', JInt 0)])]))
     \<lparr>MIXTURE_API_BASE_URL = Some (lit ''u''), MIXTURE_API_SERVICE_KEY = Some (lit ''k''),
      MIXTURE_API_NUM_OF_ROWS = 500\<rparr> (lit ''u'') 500 None []
   = ([HttpGet (lit ''u'') (Some (lit ''k'')) 1 1], Inr []) \<and>
   fetch_all_from_api (\<lambda>tr c. Inr (JDict []))
     \<lparr>MIXTURE_API_BASE_URL = Some (lit ''u''), MIXTURE_API_SERVICE_KEY = Some (lit ''k''),
      MIXTURE_API_NUM_OF_ROWS = 500\<rparr> (lit ''u'') 500 None []
   = ([HttpGet (lit ''u'') (Some (lit ''k'')) 1 1], Inr [])"
  using zero_count_no_pages [of 500
      "\<lambda>tr c. Inr (JDict [(lit ''body'', JDict [(lit ''totalCount'', JInt 0)])])" "[]"
      "lit ''u''" None
      "\<lparr>MIXTURE_API_BASE_URL = Some (lit ''u''), MIXTURE_API_SERVICE_KEY = Some (lit ''k''),
        MIXTURE_API_NUM_OF_ROWS = 500\<rparr>"
      "[(lit ''body'', JDict [(lit ''totalCount'', JInt 0)])]"]
    zero_count_no_pages [of 500 "\<lambda>tr c. Inr (JDict [])" "[]" "lit ''u''" None
      "\<lparr>MIXTURE_API_BASE_URL = Some (lit ''u''), MIXTURE_API_SERVICE_KEY = Some (lit ''k''),
        MIXTURE_API_NUM_OF_ROWS = 500\<rparr>" "[]"]
  by (simp add: py_or_def)

text \<open>
  Claim C9. When the base URL or the service key is not set or empty,
  \<open>fetch_mixture_data\<close> raises \<^verbatim>\<open>ValueError\<close> and the list of calls is as it was: no
  request, and no other call, has been made.
\<close>

theorem config_check_first:
  assumes "\<not> opt_truthy (MIXTURE_API_BASE_URL cfg) \<or> \<not> opt_truthy (MIXTURE_API_SERVICE_KEY cfg)"
  shows "\<exists>msg. fetch_mixture_data env cfg save_path tr = (tr, Inl (ValueError msg))"
  using assms by (auto simp: fetch_mixture_data_def)

theorem config_check_first_witness:
  "\<not> opt_truthy (MIXTURE_API_BASE_URL
        \<lparr>MIXTURE_API_BASE_URL = Some [], MIXTURE_API_SERVICE_KEY = Some (lit ''k''),
         MIXTURE_API_NUM_OF_ROWS = 500\<rparr>) \<and>
   (\<exists>msg. fetch_mixture_data (\<lambda>tr c. Inr JNull)
        \<lparr>MIXTURE_API_BASE_URL = Some [], MIXTURE_API_SERVICE_KEY = Some (lit ''k''),
         MIXTURE_API_NUM_OF_ROWS = 500\<rparr> None [] = ([], Inl (ValueError msg)))"
proof -
  have h: "\<not> opt_truthy (MIXTURE_API_BASE_URL
        \<lparr>MIXTURE_API_BASE_URL = Some [], MIXTURE_API_SERVICE_KEY = Some (lit ''k''),
         MIXTURE_API_NUM_OF_ROWS = 500\<rparr>)"
    by (simp add: opt_truthy_def)
  then have "\<not> opt_truthy (MIXTURE_API_BASE_URL
        \<lparr>MIXTURE_API_BASE_URL = Some [], MIXTURE_API_SERVICE_KEY = Some (lit ''k''),
         MIXTURE_API_NUM_OF_ROWS = 500\<rparr>) \<or>
      \<not> opt_truthy (MIXTURE_API_SERVICE_KEY
        \<lparr>MIXTURE_API_BASE_URL = Some [], MIXTURE_API_SERVICE_KEY = Some (lit ''k''),
         MIXTURE_API_NUM_OF_ROWS = 500\<rparr>)"
    by (rule disjI1)
  from config_check_first [OF this] h show ?thesis by blast
qed










section \<open>Properties of the batched upsert\<close>

lemma upsert_loop_accepting:
  assumes "\<forall>h c. \<exists>r. env h c = Inr r"
  shows "upsert_loop env table_name rows batch_size idx tr =
           (tr @ map (\<lambda>i. Upsert table_name (py_slice rows (i * batch_size) (i * batch_size + batch_size))) idx,
            Inr ())"
proof (induction idx arbitrary: tr)
  case Nil
  then show ?case by simp
next
  case (Cons i idx)
  obtain r where "env tr (Upsert table_name (py_slice rows (i * batch_size) (i * batch_size + batch_size))) = Inr r"
    using assms by blast
  then show ?case
    by (simp add: perform_def Let_def Cons.IH)
qed

lemma take_min_length: "take (min (length ys) n) ys = take n ys"
  by (cases "n \<le> length ys") (simp_all add: min_def)

lemma slice_window: "take (min l (a + n) - min l a) (drop (min l a) xs) = take n (drop a xs)"
  if "l = length xs"
proof (cases "a \<le> l")
  case True
  then have "min l (a + n) - min l a = min (l - a) n" by arith
  then show ?thesis
    using True that take_min_length [of "drop a xs" n] by (simp add: min_absorb2)
next
  case False
  then show ?thesis using that by simp
qed

lemma py_slice_batch_nat:
  "py_slice xs (int i * int n) (int i * int n + int n) = take n (drop (i * n) xs)"
proof -
  have e: "int i * int n = int (i * n)" "int (i * n) + int n = int (i * n + n)"
    by simp_all
  show ?thesis
    unfolding e py_slice_nonneg by (rule slice_window) simp
qed

lemma py_slice_batch:
  assumes "0 < b"
  shows "py_slice xs (int i * b) (int i * b + b) = take (nat b) (drop (i * nat b) xs)"
proof -
  have "b = int (nat b)" using assms by simp
  then show ?thesis using py_slice_batch_nat [of xs i "nat b"] by simp
qed

lemma upto_as_nats: "0 \<le> k \<Longrightarrow> [0..k - 1] = map int [0..<nat k]"
proof (rule nth_equalityI)
  assume "0 \<le> k"
  then show "length [0..k - 1] = length (map int [0..<nat k])" by simp
next
  fix i
  assume "0 \<le> k" and "i < length [0..k - 1]"
  then have i: "i < nat k" by simp
  then have "0 + int i \<le> k - 1" by linarith
  then have "[0..k - 1] ! i = 0 + int i" by (rule nth_upto)
  then show "[0..k - 1] ! i = map int [0..<nat k] ! i" using i by simp
qed

lemma concat_chunks: "concat (map (\<lambda>i. take b (drop (i * b) xs)) [0..<k]) = take (k * b) xs"
proof (induction k)
  case 0
  then show ?case by simp
next
  case (Suc k)
  have "take (k * b + b) xs = take (k * b) xs @ take b (drop (k * b) xs)"
    by (rule take_add)
  then show ?case using Suc by (simp add: add.commute)
qed

lemma chunk_lengths:
  assumes "0 < b" and "n = length xs" and "n \<le> k * b" and "0 < k \<longrightarrow> (k - 1) * b < n" and "i < k"
  shows "length (take b (drop (i * b) xs)) = (if Suc i < k then b else n - i * b)"
    and "0 < length (take b (drop (i * b) xs))"
    and "length (take b (drop (i * b) xs)) \<le> b"
proof -
  have last: "(k - 1) * b < n" using assms(4,5) by simp
  have len: "length (take b (drop (i * b) xs)) = min b (n - i * b)"
    using assms(2) by (simp add: min.commute)
  have "i \<le> k - 1" using assms(5) by simp
  then have le: "i * b \<le> (k - 1) * b" by (rule mult_le_mono1)
  show "length (take b (drop (i * b) xs)) = (if Suc i < k then b else n - i * b)"
  proof (cases "Suc i < k")
    case True
    then have "Suc i \<le> k - 1" by simp
    then have "Suc i * b \<le> (k - 1) * b" by (rule mult_le_mono1)
    then have "i * b + b < n" using last by simp
    then show ?thesis using True len by simp
  next
    case False
    then have "k = Suc i" using assms(5) by simp
    then have "n - i * b \<le> b" using assms(3) by simp
    then show ?thesis using False len by simp
  qed
  have "i * b < n" using le last by linarith
  then show "0 < length (take b (drop (i * b) xs))"
    using len assms(1) by simp
  show "length (take b (drop (i * b) xs)) \<le> b"
    by simp
qed

text \<open>
  Claim C7. For a batch size \<open>0 < B < 2 ^ 1075\<close> and \<open>N < 2 ^ 53\<close> rows (where the ceiling
  of the double is that of the quotient), and a store that accepts every
  call, \<open>upsert_to_supabase\<close> makes the client and then exactly \<open>\<lceil>N / B\<rceil>\<close> upsert calls, one
  for each batch in order. The batches are contiguous slices whose concatenation is the
  list of rows; every batch but the last has \<open>B\<close> rows and the last has the rest, at least
  one and at most \<open>B\<close>. For no rows there is no upsert call, and 1201 rows with \<open>B = 500\<close>
  give batches of 500, 500 and 201 rows.
\<close>

theorem upsert_batches:
  assumes "0 < batch_size" and "batch_size < 2 ^ 1075" and "int (length rows) < 2 ^ 53"
    and "\<forall>h c. \<exists>r. env h c = Inr r"
  shows "\<exists>batches.
           upsert_to_supabase env rows table_name batch_size tr =
             (tr @ GetClient # map (Upsert table_name) batches, Inr ()) \<and>
           concat batches = rows \<and>
           int (length batches) = \<lceil>(of_int (int (length rows)) :: rat) / of_int batch_size\<rceil> \<and>
           (\<forall>i < length batches.
              length (batches ! i) =
                (if Suc i < length batches then nat batch_size
                 else length rows - i * nat batch_size) \<and>
              0 < length (batches ! i) \<and> length (batches ! i) \<le> nat batch_size) \<and>
           (rows = [] \<longrightarrow> batches = []) \<and>
           (length rows = 1201 \<and> batch_size = 500 \<longrightarrow> map length batches = [500, 500, 201])"
proof -
  define b where "b = nat batch_size"
  define c where "c = \<lceil>(of_int (int (length rows)) :: rat) / of_int batch_size\<rceil>"
  define k where "k = nat c"
  define batches where "batches = map (\<lambda>i. take b (drop (i * b) rows)) [0..<k]"
  have b: "batch_size = int b" "0 < b"
    using assms(1) by (simp_all add: b_def)
  have bounds: "(c - 1) * batch_size < int (length rows)" "int (length rows) \<le> c * batch_size"
    using ceiling_quotient_bounds [OF assms(1), of "int (length rows)"] by (simp_all add: c_def)
  have c0: "0 \<le> c"
  proof -
    have "(0::rat) \<le> of_int (int (length rows)) / of_int batch_size"
      using assms(1) by simp
    then show ?thesis by (simp add: c_def le_ceiling_iff)
  qed
  then have c: "c = int k" by (simp add: k_def)
  have upper: "length rows \<le> k * b"
  proof -
    have "int (length rows) \<le> int (k * b)" using bounds(2) by (simp add: c b(1))
    then show ?thesis by (simp only: of_nat_le_iff)
  qed
  have lower: "0 < k \<longrightarrow> (k - 1) * b < length rows"
  proof
    assume "0 < k"
    then obtain k' where k': "k = Suc k'" by (cases k) auto
    have "int (k' * b) < int (length rows)"
      using bounds(1) by (simp add: c b(1) k')
    then have "k' * b < length rows" by (simp only: of_nat_less_iff)
    then show "(k - 1) * b < length rows" by (simp add: k')
  qed
  have k0: "rows = [] \<longrightarrow> k = 0"
    by (simp add: k_def c_def)
  obtain r where client: "env tr GetClient = Inr r"
    using assms(4) by blast
  have idx: "[0..c - 1] = map int [0..<k]"
    using upto_as_nats [OF c0] by (simp add: k_def)
  have slices: "map (\<lambda>i. Upsert table_name
            (py_slice rows (i * batch_size) (i * batch_size + batch_size))) (map int [0..<k])
          = map (Upsert table_name) batches"
    using py_slice_batch [OF assms(1), of rows] by (simp add: batches_def comp_def b_def)
  have run: "upsert_to_supabase env rows table_name batch_size tr =
             (tr @ GetClient # map (Upsert table_name) batches, Inr ())"
  proof (cases "rows = []")
    case True
    then have "batches = []" using k0 by (simp add: batches_def)
    then show ?thesis using True client by (simp add: upsert_to_supabase_def perform_def)
  next
    case False
    then have "int (length rows) \<noteq> 0" by simp
    moreover obtain quot where "py_truediv (int (length rows)) batch_size = Inr quot"
      and "math_ceil quot = c"
      using py_truediv_ceiling [OF _ assms(3) assms(1) assms(2)] unfolding c_def by auto
    ultimately have "upsert_to_supabase env rows table_name batch_size tr =
        upsert_loop env table_name rows batch_size [0..c - 1] (tr @ [GetClient])"
      using client by (simp add: upsert_to_supabase_def perform_def Let_def)
    also have "\<dots> = ((tr @ [GetClient]) @ map (\<lambda>i. Upsert table_name
            (py_slice rows (i * batch_size) (i * batch_size + batch_size))) [0..c - 1], Inr ())"
      by (rule upsert_loop_accepting [OF assms(4)])
    finally show ?thesis unfolding idx slices by simp
  qed
  have whole: "concat batches = rows"
    using upper by (simp add: batches_def concat_chunks)
  have count: "int (length batches) = c"
    by (simp add: batches_def c)
  have sizes: "\<forall>i < length batches.
              length (batches ! i) =
                (if Suc i < length batches then nat batch_size
                 else length rows - i * nat batch_size) \<and>
              0 < length (batches ! i) \<and> length (batches ! i) \<le> nat batch_size"
  proof (intro allI impI)
    fix i
    assume "i < length batches"
    then have i: "i < k" by (simp add: batches_def)
    then have nth: "batches ! i = take b (drop (i * b) rows)"
      by (simp add: batches_def)
    have lk: "length batches = k" by (simp add: batches_def)
    show "length (batches ! i) =
                (if Suc i < length batches then nat batch_size
                 else length rows - i * nat batch_size) \<and>
              0 < length (batches ! i) \<and> length (batches ! i) \<le> nat batch_size"
      unfolding nth lk b_def [symmetric]
      using chunk_lengths [OF b(2) refl upper lower i] by blast
  qed
  have empty: "rows = [] \<longrightarrow> batches = []"
    using k0 by (simp add: batches_def)
  have example: "length rows = 1201 \<and> batch_size = 500 \<longrightarrow> map length batches = [500, 500, 201]"
  proof
    assume a: "length rows = 1201 \<and> batch_size = 500"
    have "c = - ((- int (length rows)) div batch_size)"
      by (simp only: c_def ceiling_quotient)
    then have "c = 3" using a by simp
    then have "k = 3" by (simp add: k_def)
    then have "[0..<k] = [0, 1, 2]" by (simp add: upt_rec)
    then show "map length batches = [500, 500, 201]"
      using a by (simp add: batches_def b_def)
  qed
  note count' = count [unfolded c_def]
  show ?thesis
    by (rule exI [of _ batches], intro conjI)
      (fact run, fact whole, fact count', fact sizes, fact empty, fact example)
qed

lemma ceiling_5_2: "\<lceil>(5::rat) / 2\<rceil> = 3"
  using ceiling_quotient [of 5 2] by simp

lemma five_rows_run:
  "upsert_to_supabase accepting [row_of 1, row_of 2, row_of 3, row_of 4, row_of 5] (lit ''mixtures'') 2 [] =
     ([GetClient, Upsert (lit ''mixtures'') [row_of 1, row_of 2],
       Upsert (lit ''mixtures'') [row_of 3, row_of 4], Upsert (lit ''mixtures'') [row_of 5]], Inr ())"
proof -
  obtain quot where "py_truediv 5 2 = Inr quot" and "math_ceil quot = \<lceil>(of_int 5 :: rat) / of_int 2\<rceil>"
    using py_truediv_ceiling [of 5 2] by auto
  then show ?thesis
    by (simp add: upsert_to_supabase_def perform_def Let_def ceiling_5_2 upto.simps
        py_slice_def clamp_index_def)
qed

theorem upsert_batches_witness:
  "(0::int) < 2 \<and> (2::int) < 2 ^ 1075 \<and>
   int (length [row_of 1, row_of 2, row_of 3, row_of 4, row_of 5]) < 2 ^ 53 \<and>
   (\<forall>h c. \<exists>r. accepting h c = Inr r) \<and>
   (\<exists>batches.
      upsert_to_supabase accepting [row_of 1, row_of 2, row_of 3, row_of 4, row_of 5]
        (lit ''mixtures'') 2 [] = ([] @ GetClient # map (Upsert (lit ''mixtures'')) batches, Inr ()) \<and>
      concat batches = [row_of 1, row_of 2, row_of 3, row_of 4, row_of 5] \<and>
      int (length batches) = 3) \<and>
   upsert_to_supabase accepting [row_of 1, row_of 2, row_of 3, row_of 4, row_of 5] (lit ''mixtures'') 2 [] =
     ([GetClient, Upsert (lit ''mixtures'') [row_of 1, row_of 2],
       Upsert (lit ''mixtures'') [row_of 3, row_of 4], Upsert (lit ''mixtures'') [row_of 5]], Inr ())"
proof -
  have h1: "(0::int) < 2" and h2: "(2::int) < 2 ^ 1075"
    and h3: "int (length [row_of 1, row_of 2, row_of 3, row_of 4, row_of 5]) < 2 ^ 53"
    and h4: "\<forall>h c. \<exists>r. accepting h c = Inr r"
    by simp_all
  obtain batches where
    b1: "upsert_to_supabase accepting [row_of 1, row_of 2, row_of 3, row_of 4, row_of 5]
        (lit ''mixtures'') 2 [] = ([] @ GetClient # map (Upsert (lit ''mixtures'')) batches, Inr ())"
    and b2: "concat batches = [row_of 1, row_of 2, row_of 3, row_of 4, row_of 5]"
    and b3: "int (length batches) =
       \<lceil>(of_int (int (length [row_of 1, row_of 2, row_of 3, row_of 4, row_of 5])) :: rat) / of_int 2\<rceil>"
    using upsert_batches [OF h1 h2 h3 h4, of "lit ''mixtures''" "[]"] by blast
  have "int (length batches) = 3"
    using b3 by (simp add: ceiling_5_2)
  then show ?thesis
    using h1 h2 h3 b1 b2 five_rows_run by blast
qed

end
